theory Spec2Isabelle
  imports Main "HOL-Library.Word"
begin

section \<open>Python string helpers\<close>

text \<open>
  A Python \<open>str\<close> is modelled as a \<open>string\<close> (a list of characters, one per
  code point).  An optional argument defaulting to \<open>None\<close> is a \<open>string option\<close>.
\<close>

text \<open>Truthiness of an optional string: \<open>None\<close> and \<open>""\<close> are falsy.\<close>

fun truthy :: "string option \<Rightarrow> bool" where
  "truthy None = False"
| "truthy (Some s) = (s \<noteq> [])"

text \<open>
  \<open>s.split(c)\<close> for a one-character separator: scan left to right, closing the
  current segment at each separator; the result always has at least one segment.
\<close>

fun split_loop :: "char \<Rightarrow> string \<Rightarrow> string \<Rightarrow> string list" where
  "split_loop c cur [] = [cur]"
| "split_loop c cur (x # xs) =
     (if x = c then cur # split_loop c [] xs else split_loop c (cur @ [x]) xs)"

definition split :: "string \<Rightarrow> char \<Rightarrow> string list" where
  "split s c = split_loop c [] s"

text \<open>\<open>sep.join(xs)\<close>.\<close>

fun join :: "string \<Rightarrow> string list \<Rightarrow> string" where
  "join sep [] = []"
| "join sep [x] = x"
| "join sep (x # y # ys) = x @ sep @ join sep (y # ys)"

text \<open>\<open>s.endswith(suffix)\<close>.\<close>

definition endswith :: "string \<Rightarrow> string \<Rightarrow> bool" where
  "endswith s suffix =
     (length suffix \<le> length s \<and> drop (length s - length suffix) s = suffix)"

section \<open>ssml_utils.py: SSMLBuilder\<close>

record SSMLBuilder =
  voice :: string
  lang :: string
  elements :: "string list"

text \<open>\<open>SSMLBuilder._extract_language\<close>\<close>

definition extract_language :: "string \<Rightarrow> string" where
  "extract_language v =
     (let parts = split v CHR ''-'' in
      if length parts \<ge> 2 then parts ! 0 @ ''-'' @ parts ! 1 else ''en-US'')"

text \<open>\<open>SSMLBuilder.__init__\<close>: \<open>self.lang = lang or self._extract_language(voice)\<close>.\<close>

definition SSMLBuilder_init :: "string \<Rightarrow> string option \<Rightarrow> SSMLBuilder" where
  "SSMLBuilder_init v l =
     \<lparr>voice = v,
      lang = (if truthy l then the l else extract_language v),
      elements = []\<rparr>"

definition add_text :: "string \<Rightarrow> SSMLBuilder \<Rightarrow> SSMLBuilder" where
  "add_text text b = b\<lparr>elements := elements b @ [text]\<rparr>"

definition add_prosody ::
  "string \<Rightarrow> string option \<Rightarrow> string option \<Rightarrow> string option \<Rightarrow> SSMLBuilder \<Rightarrow> SSMLBuilder"
where
  \<open>add_prosody text rate pitch volume b =
     (let attrs = [];
          attrs = (if truthy rate then attrs @ [''rate="'' @ the rate @ ''"''] else attrs);
          attrs = (if truthy pitch then attrs @ [''pitch="'' @ the pitch @ ''"''] else attrs);
          attrs = (if truthy volume then attrs @ [''volume="'' @ the volume @ ''"''] else attrs);
          attr_str = (if attrs \<noteq> [] then '' '' @ join '' '' attrs else '''')
      in b\<lparr>elements := elements b @ [''<prosody'' @ attr_str @ ''>'' @ text @ ''</prosody>'']\<rparr>)\<close>

definition add_emphasis :: "string \<Rightarrow> string \<Rightarrow> SSMLBuilder \<Rightarrow> SSMLBuilder" where
  \<open>add_emphasis text level b =
     b\<lparr>elements := elements b @ [''<emphasis level="'' @ level @ ''">'' @ text @ ''</emphasis>'']\<rparr>\<close>

definition add_break :: "string \<Rightarrow> SSMLBuilder \<Rightarrow> SSMLBuilder" where
  \<open>add_break time b = b\<lparr>elements := elements b @ [''<break time="'' @ time @ ''"/>'']\<rparr>\<close>

definition add_say_as :: "string \<Rightarrow> string \<Rightarrow> string option \<Rightarrow> SSMLBuilder \<Rightarrow> SSMLBuilder" where
  \<open>add_say_as text interpret_as format b =
     (let format_attr = (if truthy format then '' format="'' @ the format @ ''"'' else '''')
      in b\<lparr>elements := elements b @
           [''<say-as interpret-as="'' @ interpret_as @ ''"'' @ format_attr @ ''>'' @ text @ ''</say-as>'']\<rparr>)\<close>

definition add_phoneme :: "string \<Rightarrow> string \<Rightarrow> string \<Rightarrow> SSMLBuilder \<Rightarrow> SSMLBuilder" where
  \<open>add_phoneme text alphabet ph b =
     b\<lparr>elements := elements b @
        [''<phoneme alphabet="'' @ alphabet @ ''" ph="'' @ ph @ ''">'' @ text @ ''</phoneme>'']\<rparr>\<close>

definition add_sub :: "string \<Rightarrow> string \<Rightarrow> SSMLBuilder \<Rightarrow> SSMLBuilder" where
  \<open>add_sub text alias b =
     b\<lparr>elements := elements b @ [''<sub alias="'' @ alias @ ''">'' @ text @ ''</sub>'']\<rparr>\<close>

text \<open>\<open>SSMLBuilder.build\<close>; the literal spans five source lines.\<close>

definition build :: "SSMLBuilder \<Rightarrow> string" where
  \<open>build b =
     (let content = concat (elements b) in
      ''<speak version="1.0" xmlns="http://www.w3.org/2001/10/synthesis" xml:lang="'' @ lang b @ ''">''
      @ [CHR 0x0A] @ ''    <voice name="'' @ voice b @ ''">''
      @ [CHR 0x0A] @ ''        '' @ content
      @ [CHR 0x0A] @ ''    </voice>''
      @ [CHR 0x0A] @ ''</speak>'')\<close>

text \<open>
  A call of one of the fragment-appending methods, with its arguments; \<open>apply_op\<close>
  dispatches to the method, so a chain \<open>b.add_x(...).add_y(...)\<close> is a fold of
  \<open>apply_op\<close> over the list of calls.
\<close>

datatype builder_op =
    AddText string
  | AddProsody string "string option" "string option" "string option"
  | AddEmphasis string string
  | AddBreak string
  | AddSayAs string string "string option"
  | AddPhoneme string string string
  | AddSub string string

fun apply_op :: "builder_op \<Rightarrow> SSMLBuilder \<Rightarrow> SSMLBuilder" where
  "apply_op (AddText t) b = add_text t b"
| "apply_op (AddProsody t r p v) b = add_prosody t r p v b"
| "apply_op (AddEmphasis t l) b = add_emphasis t l b"
| "apply_op (AddBreak t) b = add_break t b"
| "apply_op (AddSayAs t i f) b = add_say_as t i f b"
| "apply_op (AddPhoneme t a p) b = add_phoneme t a p b"
| "apply_op (AddSub t a) b = add_sub t a b"

definition apply_ops :: "builder_op list \<Rightarrow> SSMLBuilder \<Rightarrow> SSMLBuilder" where
  "apply_ops ops b = foldl (\<lambda>b' op. apply_op op b') b ops"

section \<open>Exceptions\<close>

text \<open>
  An exception is its class and its message.  \<open>OtherError\<close> stands for any
  exception class of a library (all of them derive from \<open>Exception\<close>).
\<close>

datatype exn = TTSError string | ValueError string | OtherError string

text \<open>\<open>str(e)\<close>\<close>

fun str :: "exn \<Rightarrow> string" where
  "str (TTSError m) = m"
| "str (ValueError m) = m"
| "str (OtherError m) = m"

section \<open>ssml_utils.py: SSMLValidator\<close>

text \<open>
  An \<open>xml.etree.ElementTree.Element\<close>: its tag, its attribute dictionary (as an
  association list read with \<open>map_of\<close>) and its child elements.  The validator
  reads neither \<open>.text\<close> nor \<open>.tail\<close>, so they are left out.
\<close>

datatype element = Element (tag: string) (attrib: "(string \<times> string) list") (children: "element list")

text \<open>
  What \<open>ET.fromstring\<close> does with a string: it returns the root element, raises
  \<open>ET.ParseError\<close> (with the parser's message), or raises something else.
\<close>

datatype parse_result = Parsed element | ParseError string | ParseOther exn

definition VALID_PROSODY_RATES :: "string list" where
  "VALID_PROSODY_RATES = [''x-slow'', ''slow'', ''medium'', ''fast'', ''x-fast'']"

definition VALID_PROSODY_PITCHES :: "string list" where
  "VALID_PROSODY_PITCHES = [''x-low'', ''low'', ''medium'', ''high'', ''x-high'']"

definition VALID_PROSODY_VOLUMES :: "string list" where
  "VALID_PROSODY_VOLUMES = [''silent'', ''x-soft'', ''soft'', ''medium'', ''loud'', ''x-loud'']"

definition VALID_EMPHASIS_LEVELS :: "string list" where
  "VALID_EMPHASIS_LEVELS = [''strong'', ''moderate'', ''reduced'']"

definition VALID_BREAK_STRENGTHS :: "string list" where
  "VALID_BREAK_STRENGTHS = [''none'', ''x-weak'', ''weak'', ''medium'', ''strong'', ''x-strong'']"

text \<open>
  The \<open>_validate_*\<close> methods append to the list \<open>errors\<close> they are given; the
  model takes the list and returns it updated.  (An Isabelle name cannot start with
  an underscore, so the leading underscore is dropped.)
\<close>

definition validate_prosody :: "element \<Rightarrow> string list \<Rightarrow> string list" where
  "validate_prosody element errors =
     (let errors =
            (case map_of (attrib element) ''rate'' of
               None \<Rightarrow> errors
             | Some rate \<Rightarrow>
                 if \<not> (rate \<in> set VALID_PROSODY_RATES \<or> endswith rate ''%'' \<or> endswith rate ''Hz'')
                 then errors @ [''Invalid prosody rate: '' @ rate] else errors);
          errors =
            (case map_of (attrib element) ''pitch'' of
               None \<Rightarrow> errors
             | Some pitch \<Rightarrow>
                 if \<not> (pitch \<in> set VALID_PROSODY_PITCHES \<or> endswith pitch ''Hz'' \<or> endswith pitch ''st'')
                 then errors @ [''Invalid prosody pitch: '' @ pitch] else errors);
          errors =
            (case map_of (attrib element) ''volume'' of
               None \<Rightarrow> errors
             | Some volume \<Rightarrow>
                 if \<not> (volume \<in> set VALID_PROSODY_VOLUMES \<or> endswith volume ''dB'')
                 then errors @ [''Invalid prosody volume: '' @ volume] else errors)
      in errors)"

definition validate_emphasis :: "element \<Rightarrow> string list \<Rightarrow> string list" where
  "validate_emphasis element errors =
     (case map_of (attrib element) ''level'' of
        None \<Rightarrow> errors
      | Some level \<Rightarrow>
          if level \<notin> set VALID_EMPHASIS_LEVELS
          then errors @ [''Invalid emphasis level: '' @ level] else errors)"

definition validate_break :: "element \<Rightarrow> string list \<Rightarrow> string list" where
  "validate_break element errors =
     (let errors =
            (case map_of (attrib element) ''time'' of
               None \<Rightarrow> errors
             | Some time \<Rightarrow>
                 if \<not> (endswith time ''s'' \<or> endswith time ''ms'')
                 then errors @ [''Invalid break time format: '' @ time] else errors);
          errors =
            (case map_of (attrib element) ''strength'' of
               None \<Rightarrow> errors
             | Some strength \<Rightarrow>
                 if strength \<notin> set VALID_BREAK_STRENGTHS
                 then errors @ [''Invalid break strength: '' @ strength] else errors)
      in errors)"

definition validate_say_as :: "element \<Rightarrow> string list \<Rightarrow> string list" where
  "validate_say_as element errors =
     (if map_of (attrib element) ''interpret-as'' = None
      then errors @ [''say-as element missing interpret-as attribute''] else errors)"

text \<open>
  \<open>SSMLValidator._validate_element\<close>: the check for the element's own tag, then
  the children in document order (\<open>validate_children\<close> is the \<open>for\<close> loop).
\<close>

definition validate_tag :: "element \<Rightarrow> string list \<Rightarrow> string list" where
  "validate_tag element errors =
     (if tag element = ''prosody'' then validate_prosody element errors
      else if tag element = ''emphasis'' then validate_emphasis element errors
      else if tag element = ''break'' then validate_break element errors
      else if tag element = ''say-as'' then validate_say_as element errors
      else errors)"

fun validate_element :: "element \<Rightarrow> string list \<Rightarrow> string list"
  and validate_children :: "element list \<Rightarrow> string list \<Rightarrow> string list"
where
  "validate_element (Element t a cs) errors =
     validate_children cs (validate_tag (Element t a cs) errors)"
| "validate_children [] errors = errors"
| "validate_children (c # cs) errors = validate_children cs (validate_element c errors)"

text \<open>
  \<open>SSMLValidator.validate\<close>, with the XML parser \<open>fromstring\<close> as a parameter.
  \<open>Inr\<close> is the returned list; \<open>Inl\<close> is an exception other than
  \<open>ET.ParseError\<close> escaping from the parser.
\<close>

definition validate :: "(string \<Rightarrow> parse_result) \<Rightarrow> string \<Rightarrow> exn + string list" where
  "validate fromstring ssml =
     (case fromstring ssml of
        Parsed root \<Rightarrow>
          (let errors = [];
               errors = (if tag root \<noteq> ''speak''
                         then errors @ [''Root element must be <speak>''] else errors);
               errors = (if map_of (attrib root) ''version'' = None
                         then errors @ [''Missing version attribute in <speak> element''] else errors);
               errors = (if map_of (attrib root) ''xmlns'' = None
                         then errors @ [''Missing xmlns attribute in <speak> element''] else errors)
           in Inr (validate_element root errors))
      | ParseError m \<Rightarrow> Inr [''XML parsing error: '' @ m]
      | ParseOther e \<Rightarrow> Inl e)"

text \<open>The module-level function \<open>validate_ssml\<close>.\<close>

definition validate_ssml :: "(string \<Rightarrow> parse_result) \<Rightarrow> string \<Rightarrow> bool \<Rightarrow> exn + string list" where
  "validate_ssml fromstring ssml raise_on_error =
     (case validate fromstring ssml of
        Inl e \<Rightarrow> Inl e
      | Inr errors \<Rightarrow>
          if errors \<noteq> [] \<and> raise_on_error
          then Inl (ValueError (''SSML validation failed: '' @ join ''; '' errors))
          else Inr errors)"

section \<open>A model of \<open>ET.fromstring\<close> for evaluating concrete documents\<close>

text \<open>
  \<open>xml.etree.ElementTree\<close> belongs to the Python library, not to the repository.
  The general theorems below hold for every parser.  To evaluate the validator on
  a concrete document, \<open>et_fromstring\<close> models the library on a fragment of XML:
  ASCII documents made of start tags, end tags, empty-element tags, quoted
  attribute values and character data, with the namespace processing the library
  applies (a default namespace declared by \<open>xmlns\<close> is folded into the tag as
  \<open>{uri}name\<close>, the declaration itself is not reported in \<open>attrib\<close>, and the
  predefined prefix \<open>xml\<close> is expanded).  Comments, processing instructions,
  CDATA sections, document type declarations, character and entity references,
  declared prefixes and non-ASCII characters are outside the fragment: the model
  reports a parse error for them, where the library may accept the document.
  The text of the library's error message is not modelled either.
\<close>

definition is_space :: "char \<Rightarrow> bool" where
  "is_space c = (c = CHR '' '' \<or> c = CHR 0x09 \<or> c = CHR 0x0A \<or> c = CHR 0x0D)"

definition name_start :: "char \<Rightarrow> bool" where
  "name_start c = (c \<in> set ''abcdefghijklmnopqrstuvwxyzABCDEFGHIJKLMNOPQRSTUVWXYZ_:'')"

definition name_char :: "char \<Rightarrow> bool" where
  "name_char c = (name_start c \<or> c \<in> set ''0123456789-.'')"

definition xml_char :: "char \<Rightarrow> bool" where
  "xml_char c = (is_space c \<or> (32 \<le> (of_char c :: nat) \<and> (of_char c :: nat) < 128))"

datatype token = TStart string "(string \<times> string) list" | TEnd string | TText

type_synonym attrs = "(string \<times> string) list"

datatype lstate =
    InText bool nat
  | TagOpen
  | TagName string
  | TagGap string attrs
  | TagSpace string attrs
  | AttrName string attrs string
  | AttrEq string attrs string
  | AttrQuote string attrs string
  | AttrValue string attrs string char string
  | EmptyClose string attrs
  | EndOpen
  | EndName string
  | EndSpace string

text \<open>
  The scanner, one character at a time.  \<open>InText nonws k\<close>: in character data,
  \<open>nonws\<close> tells whether a non-blank character was seen, \<open>k\<close> counts the closing
  square brackets just read (\<open>]]>\<close> is not allowed in character data).  An
  empty-element tag is reported as a start tag followed by an end tag.
\<close>

definition tag_end :: "string \<Rightarrow> attrs \<Rightarrow> char \<Rightarrow> (token list \<times> lstate) option" where
  "tag_end n as c =
     (if c = CHR ''>'' then Some ([TStart n as], InText False 0)
      else if c = CHR ''/'' then Some ([], EmptyClose n as)
      else None)"

fun scan_char :: "lstate \<Rightarrow> char \<Rightarrow> (token list \<times> lstate) option" where
  "scan_char (InText nonws k) c =
     (if c = CHR ''<'' then Some (if nonws then [TText] else [], TagOpen)
      else if c = CHR ''&'' \<or> \<not> xml_char c \<or> (c = CHR ''>'' \<and> k \<ge> 2) then None
      else Some ([], InText (nonws \<or> \<not> is_space c) (if c = CHR '']'' then min 2 (k + 1) else 0)))"
| "scan_char TagOpen c =
     (if c = CHR ''/'' then Some ([], EndOpen)
      else if name_start c then Some ([], TagName [c])
      else None)"
| "scan_char (TagName n) c =
     (if name_char c then Some ([], TagName (n @ [c]))
      else if is_space c then Some ([], TagSpace n [])
      else tag_end n [] c)"
| "scan_char (TagGap n as) c =
     (if is_space c then Some ([], TagSpace n as) else tag_end n as c)"
| "scan_char (TagSpace n as) c =
     (if is_space c then Some ([], TagSpace n as)
      else if name_start c then Some ([], AttrName n as [c])
      else tag_end n as c)"
| "scan_char (AttrName n as a) c =
     (if name_char c then Some ([], AttrName n as (a @ [c]))
      else if is_space c then Some ([], AttrEq n as a)
      else if c = CHR ''='' then Some ([], AttrQuote n as a)
      else None)"
| "scan_char (AttrEq n as a) c =
     (if is_space c then Some ([], AttrEq n as a)
      else if c = CHR ''='' then Some ([], AttrQuote n as a)
      else None)"
| "scan_char (AttrQuote n as a) c =
     (if is_space c then Some ([], AttrQuote n as a)
      else if c = CHR 0x22 \<or> c = CHR 0x27 then Some ([], AttrValue n as a c [])
      else None)"
| "scan_char (AttrValue n as a q v) c =
     (if c = q then Some ([], TagGap n (as @ [(a, v)]))
      else if c = CHR ''<'' \<or> c = CHR ''&'' \<or> \<not> xml_char c then None
      else Some ([], AttrValue n as a q (v @ [if is_space c then CHR '' '' else c])))"
| "scan_char (EmptyClose n as) c =
     (if c = CHR ''>'' then Some ([TStart n as, TEnd n], InText False 0) else None)"
| "scan_char EndOpen c = (if name_start c then Some ([], EndName [c]) else None)"
| "scan_char (EndName n) c =
     (if name_char c then Some ([], EndName (n @ [c]))
      else if is_space c then Some ([], EndSpace n)
      else if c = CHR ''>'' then Some ([TEnd n], InText False 0)
      else None)"
| "scan_char (EndSpace n) c =
     (if is_space c then Some ([], EndSpace n)
      else if c = CHR ''>'' then Some ([TEnd n], InText False 0)
      else None)"

fun scan :: "lstate \<Rightarrow> string \<Rightarrow> token list option" where
  "scan st [] = (case st of InText nonws k \<Rightarrow> Some (if nonws then [TText] else []) | _ \<Rightarrow> None)"
| "scan st (c # cs) =
     (case scan_char st c of
        None \<Rightarrow> None
      | Some (ts, st') \<Rightarrow> map_option ((@) ts) (scan st' cs))"

definition xml_namespace :: string where
  "xml_namespace = ''http://www.w3.org/XML/1998/namespace''"

text \<open>
  The tag or attribute key the library reports for a name, with \<open>ns\<close> the
  namespace of unprefixed names.
\<close>

definition qualify :: "string \<Rightarrow> string \<Rightarrow> string option" where
  "qualify ns n =
     (case split n CHR '':'' of
        [l] \<Rightarrow> Some (if ns = [] then l else ''{'' @ ns @ ''}'' @ l)
      | [p, l] \<Rightarrow> if p = ''xml'' \<and> l \<noteq> [] then Some (''{'' @ xml_namespace @ ''}'' @ l) else None
      | _ \<Rightarrow> None)"

text \<open>Attributes: \<open>xmlns\<close> is consumed; an unprefixed attribute has no namespace.\<close>

fun qualify_attrs :: "attrs \<Rightarrow> attrs option" where
  "qualify_attrs [] = Some []"
| "qualify_attrs ((k, v) # as) =
     (if k = ''xmlns'' then qualify_attrs as
      else case qualify [] k of
             None \<Rightarrow> None
           | Some k' \<Rightarrow> map_option ((#) (k', v)) (qualify_attrs as))"

text \<open>
  An open element: the name as written, the tag and attributes to report, the
  default namespace in force inside it, and the children closed so far (latest
  first).
\<close>

datatype frame = Frame string string attrs string "element list"

definition open_element :: "string \<Rightarrow> string \<Rightarrow> attrs \<Rightarrow> frame option" where
  "open_element ns n as =
     (if \<not> distinct (map fst as) then None
      else let ns' = (case map_of as ''xmlns'' of Some uri \<Rightarrow> uri | None \<Rightarrow> ns) in
        case qualify ns' n of
          None \<Rightarrow> None
        | Some t \<Rightarrow>
            (case qualify_attrs as of
               None \<Rightarrow> None
             | Some as' \<Rightarrow> Some (Frame n t as' ns' [])))"

text \<open>
  Assembling the tree from the tokens, with the stack of open elements and the
  root once it is closed.  Character data is allowed inside elements only;
  nothing but blanks may surround the root.
\<close>

fun build_tree :: "token list \<Rightarrow> frame list \<Rightarrow> element option \<Rightarrow> element option" where
  "build_tree [] stack root = (if stack = [] then root else None)"
| "build_tree (TText # ts) stack root =
     (if stack = [] then None else build_tree ts stack root)"
| "build_tree (TStart n as # ts) stack root =
     (case stack of
        [] \<Rightarrow>
          (if root \<noteq> None then None
           else case open_element [] n as of
                  None \<Rightarrow> None
                | Some f \<Rightarrow> build_tree ts [f] root)
      | Frame pn pt pa ns kids # rest \<Rightarrow>
          (case open_element ns n as of
             None \<Rightarrow> None
           | Some f \<Rightarrow> build_tree ts (f # stack) root))"
| "build_tree (TEnd n # ts) stack root =
     (case stack of
        [] \<Rightarrow> None
      | Frame n' t as ns kids # rest \<Rightarrow>
          (if n \<noteq> n' then None
           else case rest of
                  [] \<Rightarrow> build_tree ts [] (Some (Element t as (rev kids)))
                | Frame pn pt pa pns pkids # rest' \<Rightarrow>
                    build_tree ts (Frame pn pt pa pns (Element t as (rev kids) # pkids) # rest') root))"

definition et_fromstring :: "string \<Rightarrow> parse_result" where
  "et_fromstring s =
     (case scan (InText False 0) s of
        None \<Rightarrow> ParseError ''not well-formed''
      | Some ts \<Rightarrow>
          (case build_tree ts [] None of
             None \<Rightarrow> ParseError ''not well-formed''
           | Some root \<Rightarrow> Parsed root))"

section \<open>tts_client.py: synthesis of one text\<close>

text \<open>Audio data is a sequence of bytes.\<close>

type_synonym bytes = "8 word list"

text \<open>
  A chunk yielded by \<open>communicate.stream()\<close>: its \<open>"type"\<close> and, for an audio
  chunk, its \<open>"data"\<close> (read for audio chunks only).
\<close>

datatype chunk = Chunk (ctype: string) (cdata: bytes)

text \<open>
  The two libraries the client calls: the XML parser, and
  \<open>edge_tts.Communicate(text, voice).stream()\<close>, which either yields all its chunks
  or raises an exception on the way.
\<close>

record env =
  parser :: "string \<Rightarrow> parse_result"
  communicate :: "string \<Rightarrow> string \<Rightarrow> exn + chunk list"

text \<open>\<open>TTSClient._validate_ssml\<close>: every exception, its own included, is wrapped.\<close>

definition client_validate_ssml :: "env \<Rightarrow> string \<Rightarrow> exn + unit" where
  "client_validate_ssml e ssml =
     (case validate_ssml (parser e) ssml False of
        Inl x \<Rightarrow> Inl (TTSError (''SSML validation error: '' @ str x))
      | Inr errors \<Rightarrow>
          if errors \<noteq> []
          then Inl (TTSError (''SSML validation error: '' @
                  str (TTSError (''SSML validation failed: '' @ join ''; '' errors))))
          else Inr ())"

text \<open>
  \<open>TTSClient.synthesize_text\<close>.  The \<open>try\<close> block covers the whole body, so the
  \<open>TTSError\<close> raised for empty audio data is caught and wrapped as well.
\<close>

definition collect_audio :: "chunk list \<Rightarrow> bytes" where
  "collect_audio chunks = foldl (\<lambda>audio_data chunk.
       if ctype chunk = ''audio'' then audio_data @ cdata chunk else audio_data) [] chunks"

definition synthesize_text :: "env \<Rightarrow> string \<Rightarrow> string \<Rightarrow> bool \<Rightarrow> exn + bytes" where
  "synthesize_text e text vname use_ssml =
     (case (if use_ssml then client_validate_ssml e text else Inr ()) of
        Inl x \<Rightarrow> Inl (TTSError (''Failed to synthesize text: '' @ str x))
      | Inr _ \<Rightarrow>
          (case communicate e text vname of
             Inl x \<Rightarrow> Inl (TTSError (''Failed to synthesize text: '' @ str x))
           | Inr chunks \<Rightarrow>
               (let audio_data = collect_audio chunks in
                if audio_data = []
                then Inl (TTSError (''Failed to synthesize text: '' @
                        str (TTSError (''No audio data generated for text: '' @ take 50 text @ ''...''))))
                else Inr audio_data)))"

text \<open>\<open>TTSClient.synthesize_ssml\<close>\<close>

definition synthesize_ssml :: "env \<Rightarrow> string \<Rightarrow> string \<Rightarrow> exn + bytes" where
  "synthesize_ssml e ssml vname = synthesize_text e ssml vname True"

section \<open>tts_client.py: batch synthesis\<close>

text \<open>\<open>str(n)\<close> of a natural number, in decimal.\<close>

fun str_nat :: "nat \<Rightarrow> string" where
  "str_nat n =
     (if n < 10 then [char_of (48 + n)] else str_nat (n div 10) @ [char_of (48 + n mod 10)])"

declare str_nat.simps [simp del]

text \<open>The \<open>TTSError\<close> each batch function raises for the item at index \<open>i\<close>.\<close>

definition batch_item_error :: "nat \<Rightarrow> exn \<Rightarrow> exn" where
  "batch_item_error i x =
     TTSError (''Failed to synthesize batch item '' @ str_nat (i + 1) @ '': '' @ str x)"

definition concurrent_item_error :: "nat \<Rightarrow> exn \<Rightarrow> exn" where
  "concurrent_item_error i x =
     TTSError (''Failed to synthesize concurrent item '' @ str_nat (i + 1) @ '': '' @ str x)"

text \<open>
  \<open>TTSClient.batch_synthesize_text\<close>: the loop over \<open>enumerate(texts)\<close>, with the
  index \<open>i\<close> and the list \<open>results\<close> so far.  Besides the outcome, the model returns
  the log \<open>calls\<close> of the texts handed to \<open>synthesize_text\<close>, in call order (the
  log is not in the source; it is what an instrumented synthesis would record).
\<close>

fun batch_loop ::
  "env \<Rightarrow> string \<Rightarrow> bool \<Rightarrow> nat \<Rightarrow> string list \<Rightarrow> bytes list \<Rightarrow> string list
     \<Rightarrow> string list \<times> (exn + bytes list)"
where
  "batch_loop e vname use_ssml i [] results calls = (calls, Inr results)"
| "batch_loop e vname use_ssml i (text # rest) results calls =
     (case synthesize_text e text vname use_ssml of
        Inr audio_data \<Rightarrow>
          batch_loop e vname use_ssml (i + 1) rest (results @ [audio_data]) (calls @ [text])
      | Inl x \<Rightarrow> (calls @ [text], Inl (batch_item_error i x)))"

definition batch_synthesize_text ::
  "env \<Rightarrow> string list \<Rightarrow> string \<Rightarrow> bool \<Rightarrow> string list \<times> (exn + bytes list)"
where
  "batch_synthesize_text e texts vname use_ssml = batch_loop e vname use_ssml 0 texts [] []"

text \<open>
  \<open>TTSClient.batch_synthesize_concurrent\<close>.  The event loop runs one task at a
  time and switches tasks only where a task awaits, so an execution is a sequence
  of two kinds of atomic steps of the task for index \<open>i\<close>:
  \<^item> \<open>Acquire i\<close>: the task enters \<open>async with semaphore\<close> (the counter is positive
    and is decremented) and starts its call of \<open>synthesize_text\<close>;
  \<^item> \<open>Complete i\<close>: the call returns or raises, the task leaves the \<open>async with\<close>
    block (the counter is incremented) and finishes with \<open>(index, audio_data)\<close> or
    with the wrapped \<open>TTSError\<close>.
  Which enabled step comes next is the scheduler's choice: it is given as the
  list of events.  The semaphore's queue of waiters is not modelled; every order
  the library can produce is among the orders considered here.
\<close>

datatype task = Waiting | Running | Done "nat \<times> bytes" | Failed exn

datatype event = Acquire nat | Complete nat

text \<open>
  \<open>sem_value\<close> is the counter of the \<open>asyncio.Semaphore\<close>; \<open>raised\<close> is the
  exception \<open>asyncio.gather\<close> has propagated to its caller, which is the first one
  raised by any task; \<open>calls\<close> is the log of texts handed to \<open>synthesize_text\<close>.
\<close>

record bstate =
  sem_value :: int
  tasks :: "task list"
  raised :: "exn option"
  calls :: "string list"

datatype 'a outcome = Pending | Raised exn | Returned 'a

text \<open>\<open>asyncio.Semaphore(value)\<close> refuses a negative value.\<close>

definition Semaphore :: "int \<Rightarrow> exn + int" where
  "Semaphore v =
     (if v < 0 then Inl (ValueError ''Semaphore initial value must be >= 0'') else Inr v)"

definition initial :: "int \<Rightarrow> string list \<Rightarrow> bstate" where
  "initial v texts =
     \<lparr>sem_value = v, tasks = replicate (length texts) Waiting, raised = None, calls = []\<rparr>"

fun exec :: "env \<Rightarrow> string list \<Rightarrow> string \<Rightarrow> bool \<Rightarrow> event \<Rightarrow> bstate \<Rightarrow> bstate option" where
  "exec e texts vname use_ssml (Acquire i) s =
     (if i < length (tasks s) \<and> i < length texts \<and> tasks s ! i = Waiting \<and> 0 < sem_value s
      then Some (s\<lparr>sem_value := sem_value s - 1,
                   tasks := (tasks s)[i := Running],
                   calls := calls s @ [texts ! i]\<rparr>)
      else None)"
| "exec e texts vname use_ssml (Complete i) s =
     (if i < length (tasks s) \<and> i < length texts \<and> tasks s ! i = Running
      then (case synthesize_text e (texts ! i) vname use_ssml of
              Inr audio_data \<Rightarrow>
                Some (s\<lparr>sem_value := sem_value s + 1,
                        tasks := (tasks s)[i := Done (i, audio_data)]\<rparr>)
            | Inl x \<Rightarrow>
                (let err = concurrent_item_error i x
                 in Some (s\<lparr>sem_value := sem_value s + 1,
                           tasks := (tasks s)[i := Failed err],
                           raised := (case raised s of None \<Rightarrow> Some err | Some r \<Rightarrow> Some r)\<rparr>)))
      else None)"

fun run :: "env \<Rightarrow> string list \<Rightarrow> string \<Rightarrow> bool \<Rightarrow> event list \<Rightarrow> bstate \<Rightarrow> bstate option" where
  "run e texts vname use_ssml [] s = Some s"
| "run e texts vname use_ssml (ev # evs) s =
     (case exec e texts vname use_ssml ev s of
        None \<Rightarrow> None
      | Some s' \<Rightarrow> run e texts vname use_ssml evs s')"

fun task_result :: "task \<Rightarrow> (nat \<times> bytes) option" where
  "task_result (Done r) = Some r"
| "task_result _ = None"

text \<open>
  \<open>await asyncio.gather(*tasks)\<close>: the first exception raised by a task, or, once
  every task has returned, their results in the order of the tasks.
\<close>

definition gather :: "bstate \<Rightarrow> (nat \<times> bytes) list outcome" where
  "gather s =
     (case raised s of
        Some x \<Rightarrow> Raised x
      | None \<Rightarrow>
          (case those (map task_result (tasks s)) of
             Some results \<Rightarrow> Returned results
           | None \<Rightarrow> Pending))"

text \<open>
  The call as a whole, under a schedule: \<open>None\<close> when the schedule asks for a step
  that is not enabled; otherwise the log of calls and what the caller has got
  after these steps.  \<open>results.sort(key=lambda x: x[0])\<close> is a stable sort.
\<close>

definition batch_synthesize_concurrent ::
  "env \<Rightarrow> string list \<Rightarrow> string \<Rightarrow> bool \<Rightarrow> int \<Rightarrow> event list
     \<Rightarrow> (string list \<times> bytes list outcome) option"
where
  "batch_synthesize_concurrent e texts vname use_ssml limit sched =
     (case Semaphore limit of
        Inl x \<Rightarrow> (if sched = [] then Some ([], Raised x) else None)
      | Inr v \<Rightarrow>
          (case run e texts vname use_ssml sched (initial v texts) of
             None \<Rightarrow> None
           | Some s \<Rightarrow>
               Some (calls s,
                     case gather s of
                       Pending \<Rightarrow> Pending
                     | Raised x \<Rightarrow> Raised x
                     | Returned results \<Rightarrow> Returned (map snd (sort_key fst results)))))"

text \<open>The number of calls of \<open>synthesize_text\<close> that have started and not finished.\<close>

definition outstanding :: "bstate \<Rightarrow> nat" where
  "outstanding s = length (filter (\<lambda>t. t = Running) (tasks s))"

text \<open>
  The error of the first task of a schedule to finish with an exception, if any:
  the exception \<open>asyncio.gather\<close> hands to its caller.
\<close>

fun first_raised :: "env \<Rightarrow> string list \<Rightarrow> string \<Rightarrow> bool \<Rightarrow> event list \<Rightarrow> exn option" where
  "first_raised e texts vname use_ssml [] = None"
| "first_raised e texts vname use_ssml (Acquire i # evs) = first_raised e texts vname use_ssml evs"
| "first_raised e texts vname use_ssml (Complete i # evs) =
     (case synthesize_text e (texts ! i) vname use_ssml of
        Inl x \<Rightarrow> Some (concurrent_item_error i x)
      | Inr _ \<Rightarrow> first_raised e texts vname use_ssml evs)"

text \<open>
  What a task may hold for the text at index \<open>i\<close>: once finished, the index with
  the audio data of that text, or the wrapped error of that text.
\<close>

fun task_ok :: "env \<Rightarrow> string \<Rightarrow> bool \<Rightarrow> nat \<Rightarrow> string \<Rightarrow> task \<Rightarrow> bool" where
  "task_ok e vname use_ssml i text (Done r) =
     (fst r = i \<and> synthesize_text e text vname use_ssml = Inr (snd r))"
| "task_ok e vname use_ssml i text (Failed x) =
     (case synthesize_text e text vname use_ssml of
        Inl y \<Rightarrow> x = concurrent_item_error i y
      | Inr _ \<Rightarrow> False)"
| "task_ok e vname use_ssml i text Waiting = True"
| "task_ok e vname use_ssml i text Running = True"

text \<open>The steps a state still has to take: two for a waiting task, one for a running one.\<close>

fun task_steps :: "task \<Rightarrow> nat" where
  "task_steps Waiting = 2"
| "task_steps Running = 1"
| "task_steps (Done r) = 0"
| "task_steps (Failed x) = 0"

definition remaining :: "bstate \<Rightarrow> nat" where
  "remaining s = sum_list (map task_steps (tasks s))"

section \<open>config_manager.py: TTSConfig\<close>

record TTSConfig =
  default_voice :: string
  output_format :: string
  output_directory :: string
  auto_play :: bool
  cache_voices :: bool
  max_retries :: int
  timeout :: int
  rate :: string
  pitch :: string
  volume :: string
  ssml :: bool
  batch_size :: int
  max_concurrent :: int

text \<open>
  \<open>TTSConfig.__post_init__\<close>, which the generated \<open>__init__\<close> runs last:
  constructing a configuration either raises or yields the object.
\<close>

definition post_init :: "TTSConfig \<Rightarrow> exn + TTSConfig" where
  "post_init c =
     (if max_retries c < 0 then Inl (ValueError ''max_retries must be non-negative'')
      else if timeout c \<le> 0 then Inl (ValueError ''timeout must be positive'')
      else if default_voice c = [] then Inl (ValueError ''default_voice cannot be empty'')
      else if batch_size c \<le> 0 then Inl (ValueError ''batch_size must be positive'')
      else if max_concurrent c \<le> 0 then Inl (ValueError ''max_concurrent must be positive'')
      else Inr c)"

section \<open>Concrete inputs\<close>

text \<open>\<open>TTSConfig()\<close>: every field at its declared default.\<close>

definition defaults :: TTSConfig where
  "defaults = \<lparr>default_voice = ''en-US-AriaNeural'', output_format = ''mp3'',
      output_directory = ''./output'', auto_play = True, cache_voices = True,
      max_retries = 3, timeout = 30000, rate = ''0%'', pitch = ''0%'', volume = ''100%'',
      ssml = False, batch_size = 5, max_concurrent = 3\<rparr>"

text \<open>
  A stand-in for the service: the empty text gets a stream without audio, the
  texts \<open>x\<close> and \<open>y\<close> make the service fail, every other text gets audio data.
\<close>

definition demo_env :: env where
  "demo_env = \<lparr>parser = (\<lambda>s. ParseError ''no parser''),
      communicate = (\<lambda>text vname.
        if text = [] then Inr [Chunk ''WordBoundary'' []]
        else if text = ''x'' then Inl (OtherError ''timed out'')
        else if text = ''y'' then Inl (OtherError ''connection reset'')
        else if text = ''a'' then Inr [Chunk ''audio'' [1]]
        else if text = ''b'' then Inr [Chunk ''audio'' [2]]
        else Inr [Chunk ''audio'' [1, 2], Chunk ''WordBoundary'' [], Chunk ''audio'' [3]])\<rparr>"

section \<open>Properties of the string helpers\<close>

lemma split_loop_no_sep:
  "c \<notin> set a \<Longrightarrow> split_loop c cur (a @ rest) = split_loop c (cur @ a) rest"
  by (induction a arbitrary: cur) auto

lemma split_loop_length: "length (split_loop c cur s) = Suc (count_list s c)"
  by (induction s arbitrary: cur) auto

lemma split_no_sep: "c \<notin> set a \<Longrightarrow> split a c = [a]"
  using split_loop_no_sep [of c a "[]" "[]"] by (simp add: split_def)

lemma split_one_sep:
  "c \<notin> set a \<Longrightarrow> split (a @ c # rest) c = a # split rest c"
  using split_loop_no_sep [of c a "[]" "c # rest"] by (simp add: split_def)

lemma join_split_loop: "join [c] (split_loop c cur s) = cur @ s"
proof (induction s arbitrary: cur)
  case Nil
  then show ?case by simp
next
  case (Cons x xs)
  have ne: "split_loop c [] xs \<noteq> []" using split_loop_length [of c "[]" xs] by auto
  show ?case
  proof (cases "x = c")
    case True
    obtain p ps where sp: "split_loop c [] xs = p # ps" using ne by (cases "split_loop c [] xs") auto
    have "join [c] (cur # p # ps) = cur @ [c] @ join [c] (p # ps)" by simp
    with True sp Cons.IH [of "[]"] show ?thesis by simp
  next
    case False
    with Cons.IH [of "cur @ [x]"] show ?thesis by simp
  qed
qed

lemma join_split: "join [c] (split s c) = s"
  by (simp add: split_def join_split_loop)


section \<open>The language tag of a builder\<close>

text \<open>
  Claim C6.  A builder made without a language takes as its language tag the
  first two segments of the voice identifier, joined by a hyphen, when
  splitting the identifier at hyphens gives at least two segments, and
  \<open>en-US\<close> otherwise.  Spelt out on the identifier itself: \<open>a-b\<close> and
  \<open>a-b-rest\<close> give \<open>a-b\<close> when \<open>a\<close> and \<open>b\<close> hold no hyphen, and an
  identifier without a hyphen gives \<open>en-US\<close>.
\<close>

theorem extract_language_segments:
  "(2 \<le> length (split v CHR ''-'') \<longrightarrow>
      lang (SSMLBuilder_init v None) = split v CHR ''-'' ! 0 @ ''-'' @ split v CHR ''-'' ! 1)
   \<and> (length (split v CHR ''-'') < 2 \<longrightarrow> lang (SSMLBuilder_init v None) = ''en-US'')
   \<and> (CHR ''-'' \<notin> set a \<and> CHR ''-'' \<notin> set b \<longrightarrow>
        lang (SSMLBuilder_init (a @ ''-'' @ b) None) = a @ ''-'' @ b
      \<and> lang (SSMLBuilder_init (a @ ''-'' @ b @ ''-'' @ rest) None) = a @ ''-'' @ b)
   \<and> (CHR ''-'' \<notin> set v \<longrightarrow> lang (SSMLBuilder_init v None) = ''en-US'')"
proof -
  have one: "CHR ''-'' \<notin> set w \<Longrightarrow> split w CHR ''-'' = [w]" for w
    by (rule split_no_sep)
  have two: "split (a @ ''-'' @ b) CHR ''-'' = [a, b]"
    if "CHR ''-'' \<notin> set a" "CHR ''-'' \<notin> set b"
    using that split_one_sep [of "CHR ''-''" a b] one [of b] by simp
  have three: "split (a @ ''-'' @ b @ ''-'' @ rest) CHR ''-'' = a # b # split rest CHR ''-''"
    if "CHR ''-'' \<notin> set a" "CHR ''-'' \<notin> set b"
    using that split_one_sep [of "CHR ''-''" a "b @ ''-'' @ rest"]
      split_one_sep [of "CHR ''-''" b rest] by simp
  show ?thesis
    using one two three
    by (auto simp add: SSMLBuilder_init_def extract_language_def Let_def)
qed

theorem extract_language_segments_witness:
  "2 \<le> length (split ''en-US-AriaNeural'' CHR ''-'')
   \<and> lang (SSMLBuilder_init ''en-US-AriaNeural'' None) = ''en-US''
   \<and> length (split ''x'' CHR ''-'') < 2
   \<and> lang (SSMLBuilder_init ''x'' None) = ''en-US''"
  using extract_language_segments [of "''en-US-AriaNeural''" "[]" "[]" "[]"]
    extract_language_segments [of "''x''" "[]" "[]" "[]"]
  by (simp add: split_def)

lemma apply_op_appends:
  "\<exists>frag. apply_op op b = b\<lparr>elements := elements b @ [frag]\<rparr>"
  by (cases op)
     (auto simp add: add_text_def add_prosody_def add_emphasis_def add_break_def
        add_say_as_def add_phoneme_def add_sub_def Let_def)

lemma apply_ops_keeps:
  "lang (apply_ops ops b) = lang b \<and> voice (apply_ops ops b) = voice b
   \<and> length (elements (apply_ops ops b)) = length (elements b) + length ops
   \<and> take (length (elements b)) (elements (apply_ops ops b)) = elements b"
proof (induction ops arbitrary: b)
  case Nil
  then show ?case by (simp add: apply_ops_def)
next
  case (Cons op ops)
  obtain frag where f: "apply_op op b = b\<lparr>elements := elements b @ [frag]\<rparr>"
    using apply_op_appends by blast
  have step: "apply_ops (op # ops) b = apply_ops ops (apply_op op b)"
    by (simp add: apply_ops_def)
  have "take (length (elements b)) (elements (apply_ops ops (apply_op op b)))
        = take (length (elements b)) (take (length (elements (apply_op op b))) (elements (apply_ops ops (apply_op op b))))"
    using f by (simp add: min_def)
  also have "\<dots> = take (length (elements b)) (elements (apply_op op b))"
    using Cons.IH [of "apply_op op b"] by simp
  also have "\<dots> = elements b" using f by simp
  finally show ?case using Cons.IH [of "apply_op op b"] f step by simp
qed

text \<open>
  Claim C9.  The constructor sets the language tag from the explicit argument
  when that is a non-empty string and from the voice identifier otherwise; each
  appending method returns the builder with exactly one fragment added at the
  end of \<open>elements\<close> and every other field as it was, so the language tag and the
  voice are the same after any chain of such calls.
\<close>

theorem builder_language_fixed:
  "lang (SSMLBuilder_init v l) = (case l of None \<Rightarrow> extract_language v
                                   | Some x \<Rightarrow> if x = [] then extract_language v else x)
   \<and> voice (SSMLBuilder_init v l) = v
   \<and> elements (SSMLBuilder_init v l) = []
   \<and> (\<exists>frag. apply_op op b = b\<lparr>elements := elements b @ [frag]\<rparr>)
   \<and> lang (apply_op op b) = lang b
   \<and> voice (apply_op op b) = voice b
   \<and> lang (apply_ops ops (SSMLBuilder_init v l)) = lang (SSMLBuilder_init v l)
   \<and> length (elements (apply_ops ops b)) = length (elements b) + length ops"
proof -
  obtain frag where f: "apply_op op b = b\<lparr>elements := elements b @ [frag]\<rparr>"
    using apply_op_appends by blast
  have "lang (apply_op op b) = lang b" "voice (apply_op op b) = voice b"
    using f by simp_all
  moreover have "lang (SSMLBuilder_init v l) = (case l of None \<Rightarrow> extract_language v
                                   | Some x \<Rightarrow> if x = [] then extract_language v else x)"
    by (cases l) (simp_all add: SSMLBuilder_init_def)
  moreover have "voice (SSMLBuilder_init v l) = v" "elements (SSMLBuilder_init v l) = []"
    by (simp_all add: SSMLBuilder_init_def)
  moreover have "\<exists>frag. apply_op op b = b\<lparr>elements := elements b @ [frag]\<rparr>"
    using f by blast
  moreover have "lang (apply_ops ops (SSMLBuilder_init v l)) = lang (SSMLBuilder_init v l)"
    using apply_ops_keeps [of ops "SSMLBuilder_init v l"] by blast
  moreover have "length (elements (apply_ops ops b)) = length (elements b) + length ops"
    using apply_ops_keeps [of ops b] by blast
  ultimately show ?thesis by blast
qed

theorem builder_language_fixed_witness:
  "lang (apply_op (AddBreak ''1s'') (apply_op (AddText ''hi'') (SSMLBuilder_init ''fr-FR-DeniseNeural'' None))) = ''fr-FR''
   \<and> elements (apply_op (AddBreak ''1s'') (apply_op (AddText ''hi'') (SSMLBuilder_init ''fr-FR-DeniseNeural'' None)))
       = [''hi'', ''<break time='' @ [CHR 0x22] @ ''1s'' @ [CHR 0x22] @ ''/>'']"
  using builder_language_fixed [of "''fr-FR-DeniseNeural''" None "AddBreak ''1s''"
      "apply_op (AddText ''hi'') (SSMLBuilder_init ''fr-FR-DeniseNeural'' None)" "[]"]
  by (simp add: SSMLBuilder_init_def extract_language_def split_def add_text_def add_break_def)

section \<open>Validation of a configuration\<close>

text \<open>
  Claim C8.  Constructing a configuration raises (a \<open>ValueError\<close>) exactly when
  \<open>max_retries < 0\<close>, \<open>timeout <= 0\<close>, \<open>default_voice\<close> is empty,
  \<open>batch_size <= 0\<close> or \<open>max_concurrent <= 0\<close>; otherwise it yields the
  configuration unchanged.
\<close>

theorem post_init_raises_iff:
  "((\<exists>m. post_init c = Inl (ValueError m)) \<longleftrightarrow>
      (max_retries c < 0 \<or> timeout c \<le> 0 \<or> default_voice c = [] \<or> batch_size c \<le> 0
       \<or> max_concurrent c \<le> 0))
   \<and> (post_init c = Inr c \<longleftrightarrow>
      (0 \<le> max_retries c \<and> 0 < timeout c \<and> default_voice c \<noteq> [] \<and> 0 < batch_size c
       \<and> 0 < max_concurrent c))
   \<and> (\<forall>r. post_init c = Inr r \<longrightarrow> r = c)"
  by (auto simp add: post_init_def)


theorem post_init_raises_iff_witness:
  "post_init defaults = Inr defaults
   \<and> (\<exists>m. post_init (defaults\<lparr>batch_size := 0\<rparr>) = Inl (ValueError m))
   \<and> (\<exists>m. post_init (defaults\<lparr>max_retries := -1\<rparr>) = Inl (ValueError m))
   \<and> (\<exists>m. post_init (defaults\<lparr>timeout := 0\<rparr>) = Inl (ValueError m))
   \<and> (\<exists>m. post_init (defaults\<lparr>max_concurrent := 0\<rparr>) = Inl (ValueError m))
   \<and> (\<exists>m. post_init (defaults\<lparr>default_voice := []\<rparr>) = Inl (ValueError m))"
  using post_init_raises_iff [of defaults]
    post_init_raises_iff [of "defaults\<lparr>batch_size := 0\<rparr>"]
    post_init_raises_iff [of "defaults\<lparr>max_retries := -1\<rparr>"]
    post_init_raises_iff [of "defaults\<lparr>timeout := 0\<rparr>"]
    post_init_raises_iff [of "defaults\<lparr>max_concurrent := 0\<rparr>"]
    post_init_raises_iff [of "defaults\<lparr>default_voice := []\<rparr>"]
  by (simp add: defaults_def)

section \<open>Synthesis of one text\<close>

lemma collect_audio_foldl:
  "foldl (\<lambda>audio_data chunk. if ctype chunk = ''audio'' then audio_data @ cdata chunk else audio_data) acc chunks
   = acc @ concat (map cdata (filter (\<lambda>c. ctype c = ''audio'') chunks))"
  by (induction chunks arbitrary: acc) auto

lemma collect_audio_concat:
  "collect_audio chunks = concat (map cdata (filter (\<lambda>c. ctype c = ''audio'') chunks))"
  by (simp add: collect_audio_def collect_audio_foldl)

text \<open>
  Claim C10.  \<open>synthesize_text\<close> never returns empty audio data: when the stream
  ends without any audio data, it raises a \<open>TTSError\<close>; every exception it
  raises is a \<open>TTSError\<close>.
\<close>

theorem synthesize_text_nonempty:
  "(\<forall>audio. synthesize_text e text vname use_ssml = Inr audio \<longrightarrow> audio \<noteq> [])
   \<and> (\<forall>chunks. communicate e text vname = Inr chunks
        \<and> (\<forall>c \<in> set chunks. ctype c = ''audio'' \<longrightarrow> cdata c = []) \<longrightarrow>
        (\<exists>m. synthesize_text e text vname use_ssml = Inl (TTSError m)))
   \<and> (\<forall>x. synthesize_text e text vname use_ssml = Inl x \<longrightarrow> (\<exists>m. x = TTSError m))"
proof -
  have "collect_audio chunks = []" if "\<forall>c \<in> set chunks. ctype c = ''audio'' \<longrightarrow> cdata c = []" for chunks
    using that by (auto simp add: collect_audio_concat)
  then show ?thesis
    by (auto simp add: synthesize_text_def Let_def split: sum.splits if_splits)
qed


theorem synthesize_text_nonempty_witness:
  "synthesize_text demo_env ''hi'' ''en-US-AriaNeural'' False = Inr [1, 2, 3]
   \<and> [1, 2, 3 :: 8 word] \<noteq> []
   \<and> communicate demo_env '''' ''en-US-AriaNeural'' = Inr [Chunk ''WordBoundary'' []]
   \<and> (\<exists>m. synthesize_text demo_env '''' ''en-US-AriaNeural'' False = Inl (TTSError m))"
  using synthesize_text_nonempty [of demo_env "''hi''" "''en-US-AriaNeural''" False]
    synthesize_text_nonempty [of demo_env "''''" "''en-US-AriaNeural''" False]
  by (simp add: synthesize_text_def demo_env_def collect_audio_def)

section \<open>Concurrent batch synthesis: the semaphore\<close>

lemma run_append:
  "run e texts vname use_ssml (xs @ ys) s =
     (case run e texts vname use_ssml xs s of None \<Rightarrow> None
      | Some s' \<Rightarrow> run e texts vname use_ssml ys s')"
  by (induction xs arbitrary: s) (auto split: option.splits)

lemma exec_length:
  "exec e texts vname use_ssml ev s = Some s' \<Longrightarrow> length (tasks s') = length (tasks s)"
  by (cases ev) (auto simp add: Let_def split: if_splits sum.splits)

lemma filter_update_count:
  "i < length xs \<Longrightarrow>
     length (filter P (xs[i := y])) + (if P (xs ! i) then 1 else 0)
       = length (filter P xs) + (if P y then 1 else 0)"
proof (induction xs arbitrary: i)
  case Nil
  then show ?case by simp
next
  case (Cons a xs)
  then show ?case by (cases i) auto
qed

lemma exec_semaphore:
  assumes "exec e texts vname use_ssml ev s = Some s'"
  shows "sem_value s' + int (outstanding s') = sem_value s + int (outstanding s)"
proof (cases ev)
  case (Acquire i)
  with assms have i: "i < length (tasks s)" "tasks s ! i = Waiting"
    and s': "s' = s\<lparr>sem_value := sem_value s - 1, tasks := (tasks s)[i := Running],
                     calls := calls s @ [texts ! i]\<rparr>"
    by (auto split: if_splits)
  from filter_update_count [OF i(1), of "\<lambda>t. t = Running" Running] i(2)
  have "outstanding s' = outstanding s + 1" by (simp add: outstanding_def s')
  then show ?thesis by (simp add: s')
next
  case (Complete i)
  with assms have i: "i < length (tasks s)" "tasks s ! i = Running"
    and s': "sem_value s' = sem_value s + 1"
      "\<exists>t. t \<noteq> Running \<and> tasks s' = (tasks s)[i := t]"
    by (auto simp add: Let_def split: if_splits sum.splits)
  then obtain t where t: "t \<noteq> Running" "tasks s' = (tasks s)[i := t]" by blast
  from filter_update_count [OF i(1), of "\<lambda>t. t = Running" t] i(2) t
  have "outstanding s' + 1 = outstanding s" by (simp add: outstanding_def)
  then show ?thesis using s'(1) by linarith
qed

lemma exec_nonneg:
  "exec e texts vname use_ssml ev s = Some s' \<Longrightarrow> 0 \<le> sem_value s \<Longrightarrow> 0 \<le> sem_value s'"
  by (cases ev) (auto simp add: Let_def split: if_splits sum.splits)

lemma run_semaphore:
  "run e texts vname use_ssml sched s = Some s' \<Longrightarrow> 0 \<le> sem_value s \<Longrightarrow>
     sem_value s' + int (outstanding s') = sem_value s + int (outstanding s) \<and> 0 \<le> sem_value s'"
proof (induction sched arbitrary: s)
  case Nil
  then show ?case by simp
next
  case (Cons ev sched)
  from Cons.prems(1) obtain s1 where s1: "exec e texts vname use_ssml ev s = Some s1"
    "run e texts vname use_ssml sched s1 = Some s'"
    by (auto split: option.splits)
  from Cons.IH [OF s1(2) exec_nonneg [OF s1(1) Cons.prems(2)]] exec_semaphore [OF s1(1)]
  show ?case by simp
qed

lemma outstanding_initial: "outstanding (initial v texts) = 0"
  by (simp add: outstanding_def initial_def)

text \<open>
  Claim C4.  In every state an execution of \<open>batch_synthesize_concurrent\<close> with
  limit \<open>K\<close> reaches (the limit being one the semaphore accepts), the number of
  outstanding calls of \<open>synthesize_text\<close> is at most \<open>K\<close>; it equals \<open>K\<close> minus
  the semaphore's counter, and the counter stays between \<open>0\<close> and \<open>K\<close>, so
  the count kept by the semaphore never goes negative.  Every point of an
  execution is the end of a prefix of its schedule, and the bounds hold there.
\<close>

theorem outstanding_bounded:
  assumes "Semaphore K = Inr v"
    and "run e texts vname use_ssml sched (initial v texts) = Some s"
  shows "int (outstanding s) \<le> K \<and> int (outstanding s) = K - sem_value s
         \<and> 0 \<le> sem_value s \<and> sem_value s \<le> K
         \<and> (\<forall>n. \<exists>s'. run e texts vname use_ssml (take n sched) (initial v texts) = Some s'
                \<and> int (outstanding s') \<le> K \<and> 0 \<le> sem_value s' \<and> sem_value s' \<le> K)"
proof -
  from assms(1) have v: "v = K" "0 \<le> K" by (auto simp add: Semaphore_def split: if_splits)
  have init: "sem_value (initial v texts) = K" "0 \<le> sem_value (initial v texts)"
    using v by (simp_all add: initial_def)
  have bound: "int (outstanding t) \<le> K \<and> int (outstanding t) = K - sem_value t
               \<and> 0 \<le> sem_value t \<and> sem_value t \<le> K"
    if "run e texts vname use_ssml xs (initial v texts) = Some t" for xs t
    using run_semaphore [OF that init(2)] init(1) outstanding_initial [of v texts] by simp
  have "\<exists>s'. run e texts vname use_ssml (take n sched) (initial v texts) = Some s'" for n
  proof -
    have "run e texts vname use_ssml (take n sched @ drop n sched) (initial v texts) = Some s"
      using assms(2) by simp
    then show ?thesis unfolding run_append by (auto split: option.splits)
  qed
  then show ?thesis using bound [OF assms(2)] bound by blast
qed

theorem outstanding_bounded_witness:
  "Semaphore 2 = Inr 2
   \<and> run demo_env [''a'', ''b'', ''c''] ''en-US-AriaNeural'' False
        [Acquire 1, Acquire 0, Complete 1, Acquire 2] (initial 2 [''a'', ''b'', ''c''])
      = Some \<lparr>sem_value = 0, tasks = [Running, Done (1, [2]), Running], raised = None,
               calls = [''b'', ''a'', ''c'']\<rparr>
   \<and> int (outstanding \<lparr>sem_value = 0, tasks = [Running, Done (1, [2]), Running], raised = None,
               calls = [''b'', ''a'', ''c'']\<rparr>) \<le> 2"
proof -
  have sem: "Semaphore 2 = Inr 2" by (simp add: Semaphore_def)
  have r: "run demo_env [''a'', ''b'', ''c''] ''en-US-AriaNeural'' False
        [Acquire 1, Acquire 0, Complete 1, Acquire 2] (initial 2 [''a'', ''b'', ''c''])
      = Some \<lparr>sem_value = 0, tasks = [Running, Done (1, [2]), Running], raised = None,
               calls = [''b'', ''a'', ''c'']\<rparr>"
    by (simp add: initial_def synthesize_text_def demo_env_def collect_audio_def)
  from outstanding_bounded [OF sem r] sem r show ?thesis by blast
qed

section \<open>Batch synthesis of the empty list\<close>

lemma exec_no_tasks: "tasks s = [] \<Longrightarrow> exec e texts vname use_ssml ev s = None"
  by (cases ev) simp_all

text \<open>
  Claim C7.  For the empty list of texts, \<open>batch_synthesize_text\<close> returns the
  empty list and its log of calls is empty; \<open>batch_synthesize_concurrent\<close>, with
  a limit the semaphore accepts, has a single execution (no task exists, so no
  step is enabled), which returns the empty list with an empty log of calls.
\<close>

theorem batch_empty:
  "batch_synthesize_text e [] vname use_ssml = ([], Inr [])
   \<and> (0 \<le> K \<longrightarrow>
        batch_synthesize_concurrent e [] vname use_ssml K [] = Some ([], Returned [])
        \<and> (\<forall>sched. sched \<noteq> [] \<longrightarrow> batch_synthesize_concurrent e [] vname use_ssml K sched = None))"
proof -
  have seq: "batch_synthesize_text e [] vname use_ssml = ([], Inr [])"
    by (simp add: batch_synthesize_text_def)
  have conc: "batch_synthesize_concurrent e [] vname use_ssml K [] = Some ([], Returned [])"
    if "0 \<le> K"
    using that by (simp add: batch_synthesize_concurrent_def Semaphore_def initial_def gather_def)
  have none: "batch_synthesize_concurrent e [] vname use_ssml K sched = None"
    if k: "0 \<le> K" and ne: "sched \<noteq> []" for sched
  proof -
    obtain ev evs where sched: "sched = ev # evs" using ne by (cases sched) auto
    have "exec e [] vname use_ssml ev (initial K []) = None"
      by (rule exec_no_tasks) (simp add: initial_def)
    then show ?thesis
      using k by (simp add: batch_synthesize_concurrent_def Semaphore_def sched)
  qed
  from seq conc none show ?thesis by blast
qed

theorem batch_empty_witness:
  "(0::int) \<le> 3
   \<and> batch_synthesize_text demo_env [] ''en-US-AriaNeural'' False = ([], Inr [])
   \<and> batch_synthesize_concurrent demo_env [] ''en-US-AriaNeural'' False 3 [] = Some ([], Returned [])
   \<and> batch_synthesize_concurrent demo_env [] ''en-US-AriaNeural'' False 3 [Acquire 0] = None"
  using batch_empty [of demo_env "''en-US-AriaNeural''" False 3] by simp

section \<open>Concurrent batch synthesis: results and termination\<close>

lemma exec_task_ok:
  assumes "exec e texts vname use_ssml ev s = Some s'"
    and "length (tasks s) = length texts"
    and "\<forall>i<length texts. task_ok e vname use_ssml i (texts ! i) (tasks s ! i)"
  shows "\<forall>i<length texts. task_ok e vname use_ssml i (texts ! i) (tasks s' ! i)"
proof (cases ev)
  case (Acquire j)
  with assms(1) have "tasks s' = (tasks s)[j := Running]" "j < length (tasks s)"
    by (auto split: if_splits)
  with assms(2,3) show ?thesis by (auto simp add: nth_list_update)
next
  case (Complete j)
  with assms(1) have j: "j < length texts" "j < length (tasks s)" by (auto split: if_splits)
  show ?thesis
  proof (cases "synthesize_text e (texts ! j) vname use_ssml")
    case (Inl x)
    with Complete assms(1) have "tasks s' = (tasks s)[j := Failed (concurrent_item_error j x)]"
      by (auto simp add: Let_def split: if_splits)
    with assms(2,3) Inl j show ?thesis by (auto simp add: nth_list_update)
  next
    case (Inr a)
    with Complete assms(1) have "tasks s' = (tasks s)[j := Done (j, a)]"
      by (auto split: if_splits)
    with assms(2,3) Inr j show ?thesis by (auto simp add: nth_list_update)
  qed
qed

lemma run_task_ok:
  "run e texts vname use_ssml sched s = Some s' \<Longrightarrow>
   length (tasks s) = length texts \<Longrightarrow>
   \<forall>i<length texts. task_ok e vname use_ssml i (texts ! i) (tasks s ! i) \<Longrightarrow>
   length (tasks s') = length texts
   \<and> (\<forall>i<length texts. task_ok e vname use_ssml i (texts ! i) (tasks s' ! i))"
proof (induction sched arbitrary: s)
  case Nil
  then show ?case by simp
next
  case (Cons ev sched)
  from Cons.prems(1) obtain s1 where s1: "exec e texts vname use_ssml ev s = Some s1"
    "run e texts vname use_ssml sched s1 = Some s'"
    by (auto split: option.splits)
  have "length (tasks s1) = length texts" using exec_length [OF s1(1)] Cons.prems(2) by simp
  moreover have "\<forall>i<length texts. task_ok e vname use_ssml i (texts ! i) (tasks s1 ! i)"
    by (rule exec_task_ok [OF s1(1) Cons.prems(2) Cons.prems(3)])
  ultimately show ?case using Cons.IH [OF s1(2)] by blast
qed

lemma run_raised:
  "run e texts vname use_ssml sched s = Some s' \<Longrightarrow>
   raised s' = (case raised s of Some r \<Rightarrow> Some r | None \<Rightarrow> first_raised e texts vname use_ssml sched)"
proof (induction sched arbitrary: s)
  case Nil
  then show ?case by (simp split: option.splits)
next
  case (Cons ev sched)
  from Cons.prems(1) obtain s1 where s1: "exec e texts vname use_ssml ev s = Some s1"
    "run e texts vname use_ssml sched s1 = Some s'"
    by (auto split: option.splits)
  show ?case
  proof (cases ev)
    case (Acquire j)
    with s1(1) have "raised s1 = raised s" by (auto split: if_splits)
    with Cons.IH [OF s1(2)] Acquire show ?thesis by (simp split: option.splits)
  next
    case (Complete j)
    show ?thesis
    proof (cases "synthesize_text e (texts ! j) vname use_ssml")
      case (Inl x)
      with Complete s1(1)
      have "raised s1 = (case raised s of None \<Rightarrow> Some (concurrent_item_error j x) | Some r \<Rightarrow> Some r)"
        by (auto simp add: Let_def split: if_splits)
      with Cons.IH [OF s1(2)] Complete Inl show ?thesis by (simp split: option.splits)
    next
      case (Inr a)
      with Complete s1(1) have "raised s1 = raised s" by (auto split: if_splits)
      with Cons.IH [OF s1(2)] Complete Inr show ?thesis by (simp split: option.splits)
    qed
  qed
qed

lemma those_task_result:
  "those (map task_result ts) = Some rs \<longleftrightarrow> ts = map Done rs"
proof (induction ts arbitrary: rs)
  case Nil
  then show ?case by auto
next
  case (Cons t ts)
  show ?case
  proof (cases t)
    case (Done r)
    with Cons.IH show ?thesis by (cases rs) (auto split: option.splits)
  qed (auto)
qed

lemma update_steps:
  "i < length ts \<Longrightarrow>
     sum_list (map task_steps (ts[i := t])) + task_steps (ts ! i)
       = sum_list (map task_steps ts) + task_steps t"
proof (induction ts arbitrary: i)
  case Nil
  then show ?case by simp
next
  case (Cons a ts)
  then show ?case by (cases i) auto
qed

lemma exec_remaining:
  assumes "exec e texts vname use_ssml ev s = Some s'"
  shows "remaining s' + 1 = remaining s"
proof (cases ev)
  case (Acquire i)
  with assms have i: "i < length (tasks s)" "tasks s ! i = Waiting"
    and s': "tasks s' = (tasks s)[i := Running]"
    by (auto split: if_splits)
  from update_steps [OF i(1), of Running] i(2) show ?thesis
    by (simp add: remaining_def s')
next
  case (Complete i)
  with assms have i: "i < length (tasks s)" "tasks s ! i = Running"
    by (auto split: if_splits)
  have "\<exists>t. task_steps t = 0 \<and> tasks s' = (tasks s)[i := t]"
  proof (cases "synthesize_text e (texts ! i) vname use_ssml")
    case (Inl x)
    with Complete assms have "tasks s' = (tasks s)[i := Failed (concurrent_item_error i x)]"
      by (auto simp add: Let_def split: if_splits)
    then show ?thesis by (metis task_steps.simps(4))
  next
    case (Inr a)
    with Complete assms have "tasks s' = (tasks s)[i := Done (i, a)]"
      by (auto split: if_splits)
    then show ?thesis by (metis task_steps.simps(3))
  qed
  then obtain t where t: "task_steps t = 0" "tasks s' = (tasks s)[i := t]" by blast
  from update_steps [OF i(1), of t] i(2) t show ?thesis
    by (simp add: remaining_def)
qed

lemma run_remaining:
  "run e texts vname use_ssml sched s = Some s' \<Longrightarrow> remaining s' + length sched = remaining s"
proof (induction sched arbitrary: s)
  case Nil
  then show ?case by simp
next
  case (Cons ev sched)
  from Cons.prems(1) obtain s1 where s1: "exec e texts vname use_ssml ev s = Some s1"
    "run e texts vname use_ssml sched s1 = Some s'"
    by (auto split: option.splits)
  from Cons.IH [OF s1(2)] exec_remaining [OF s1(1)] show ?case by simp
qed

lemma remaining_initial: "remaining (initial v texts) = 2 * length texts"
  by (simp add: remaining_def initial_def sum_list_replicate)

lemma steps_pos: "0 < sum_list (map task_steps ts) \<Longrightarrow> \<exists>t \<in> set ts. task_steps t \<noteq> 0"
  by (induction ts) auto

lemma remaining_pos:
  "0 < remaining s \<Longrightarrow> \<exists>i<length (tasks s). tasks s ! i = Waiting \<or> tasks s ! i = Running"
proof -
  assume "0 < remaining s"
  then obtain t where t: "t \<in> set (tasks s)" "task_steps t \<noteq> 0"
    using steps_pos [of "tasks s"] unfolding remaining_def by blast
  from t(2) have "t = Waiting \<or> t = Running" by (cases t) auto
  with t(1) show ?thesis by (metis in_set_conv_nth)
qed

lemma remaining_zero:
  "remaining s = 0 \<Longrightarrow> t \<in> set (tasks s) \<Longrightarrow> t \<noteq> Waiting \<and> t \<noteq> Running"
  by (auto simp add: remaining_def)

lemma no_running:
  "\<forall>i<length (tasks s). tasks s ! i \<noteq> Running \<Longrightarrow> outstanding s = 0"
  by (auto simp add: outstanding_def filter_empty_conv in_set_conv_nth)

lemma progress:
  assumes "0 < remaining s"
    and "length (tasks s) = length texts"
    and "0 < sem_value s + int (outstanding s)"
  shows "\<exists>ev s'. exec e texts vname use_ssml ev s = Some s'"
proof (cases "\<exists>i<length (tasks s). tasks s ! i = Running")
  case True
  then obtain i where "i < length (tasks s)" "tasks s ! i = Running" by blast
  with assms(2) have "\<exists>s'. exec e texts vname use_ssml (Complete i) s = Some s'"
    by (auto simp add: Let_def split: sum.splits)
  then show ?thesis by blast
next
  case False
  then have "outstanding s = 0" using no_running by blast
  with assms(3) have pos: "0 < sem_value s" by simp
  from remaining_pos [OF assms(1)] False obtain i where "i < length (tasks s)" "tasks s ! i = Waiting"
    by blast
  with assms(2) pos have "\<exists>s'. exec e texts vname use_ssml (Acquire i) s = Some s'" by simp
  then show ?thesis by blast
qed

lemma completion:
  "length (tasks s) = length texts \<Longrightarrow> 0 < sem_value s + int (outstanding s) \<Longrightarrow>
   \<exists>sched s'. run e texts vname use_ssml sched s = Some s' \<and> remaining s' = 0"
proof (induction "remaining s" arbitrary: s)
  case 0
  have "run e texts vname use_ssml [] s = Some s" by simp
  with 0 show ?case by metis
next
  case (Suc n)
  from Suc.hyps(2) have "0 < remaining s" by simp
  from progress [OF this Suc.prems] obtain ev s1 where s1: "exec e texts vname use_ssml ev s = Some s1"
    by blast
  have "n = remaining s1" using exec_remaining [OF s1] Suc.hyps(2) by simp
  moreover have "length (tasks s1) = length texts" using exec_length [OF s1] Suc.prems(1) by simp
  moreover have "0 < sem_value s1 + int (outstanding s1)"
    using exec_semaphore [OF s1] Suc.prems(2) by simp
  ultimately obtain sched s' where "run e texts vname use_ssml sched s1 = Some s'" "remaining s' = 0"
    using Suc.hyps(1) by blast
  with s1 have "run e texts vname use_ssml (ev # sched) s = Some s' \<and> remaining s' = 0" by simp
  then show ?case by blast
qed

lemma initial_ok:
  "length (tasks (initial v texts)) = length texts"
  "\<forall>i<length texts. task_ok e vname use_ssml i (texts ! i) (tasks (initial v texts) ! i)"
  by (simp_all add: initial_def)

lemma exec_no_raise:
  assumes "exec e texts vname use_ssml ev s = Some s'"
    and "\<forall>i<length texts. \<exists>a. synthesize_text e (texts ! i) vname use_ssml = Inr a"
  shows "raised s' = raised s"
proof (cases ev)
  case (Acquire j)
  with assms(1) show ?thesis by (auto split: if_splits)
next
  case (Complete j)
  with assms(1) have "j < length texts" by (auto split: if_splits)
  with assms(2) obtain a where "synthesize_text e (texts ! j) vname use_ssml = Inr a" by blast
  with Complete assms(1) show ?thesis by (auto split: if_splits)
qed

lemma run_no_raise:
  "run e texts vname use_ssml sched s = Some s' \<Longrightarrow>
   \<forall>i<length texts. \<exists>a. synthesize_text e (texts ! i) vname use_ssml = Inr a \<Longrightarrow>
   raised s' = raised s"
proof (induction sched arbitrary: s)
  case Nil
  then show ?case by simp
next
  case (Cons ev sched)
  from Cons.prems(1) obtain s1 where s1: "exec e texts vname use_ssml ev s = Some s1"
    "run e texts vname use_ssml sched s1 = Some s'"
    by (auto split: option.splits)
  from Cons.IH [OF s1(2) Cons.prems(2)] exec_no_raise [OF s1(1) Cons.prems(2)]
  show ?case by simp
qed

lemma all_done: "\<forall>t \<in> set ts. \<exists>r. t = Done r \<Longrightarrow> \<exists>rs. ts = map Done rs"
proof (induction ts)
  case Nil
  then show ?case by simp
next
  case (Cons t ts)
  then obtain r rs where "t = Done r" "ts = map Done rs" by auto
  then have "t # ts = map Done (r # rs)" by simp
  then show ?case by (rule exI)
qed

lemma finished_returns:
  assumes len: "length (tasks s) = length texts"
    and ok: "\<forall>i<length texts. task_ok e vname use_ssml i (texts ! i) (tasks s ! i)"
    and succ: "\<forall>i<length texts. \<exists>a. synthesize_text e (texts ! i) vname use_ssml = Inr a"
    and none: "raised s = None"
    and fin: "remaining s = 0"
  shows "\<exists>rs. gather s = Returned rs"
proof -
  have "\<exists>r. t = Done r" if t: "t \<in> set (tasks s)" for t
  proof -
    from t obtain i where i: "i < length (tasks s)" "tasks s ! i = t"
      by (auto simp add: in_set_conv_nth)
    with len ok have tok: "task_ok e vname use_ssml i (texts ! i) t" by auto
    from i len succ obtain a where a: "synthesize_text e (texts ! i) vname use_ssml = Inr a"
      by auto
    from remaining_zero [OF fin t] tok a show ?thesis by (cases t) auto
  qed
  then obtain rs where "tasks s = map Done rs" using all_done by blast
  then have "those (map task_result (tasks s)) = Some rs" by (rule iffD2 [OF those_task_result])
  with none show ?thesis by (simp add: gather_def)
qed

lemma returned_results:
  assumes len: "length (tasks s) = length texts"
    and ok: "\<forall>i<length texts. task_ok e vname use_ssml i (texts ! i) (tasks s ! i)"
    and ret: "gather s = Returned rs"
  shows "sort_key fst rs = rs \<and> length rs = length texts
         \<and> (\<forall>i<length texts. synthesize_text e (texts ! i) vname use_ssml = Inr (map snd rs ! i))"
proof -
  from ret have ts: "tasks s = map Done rs"
    by (auto simp add: gather_def those_task_result split: option.splits)
  with len have n: "length rs = length texts" by (metis length_map)
  have each: "fst (rs ! i) = i \<and> synthesize_text e (texts ! i) vname use_ssml = Inr (snd (rs ! i))"
    if "i < length texts" for i
  proof -
    from that n ts have "tasks s ! i = Done (rs ! i)" by simp
    with ok that show ?thesis by fastforce
  qed
  have "map fst rs = [0..<length rs]"
    by (rule nth_equalityI) (use each n in auto)
  then have "sorted (map fst rs)" by simp
  then have "sort_key fst rs = rs" by (rule sort_key_id_if_sorted)
  with n each show ?thesis by simp
qed

lemma concurrent_unfold:
  "0 \<le> K \<Longrightarrow>
   batch_synthesize_concurrent e texts vname use_ssml K sched =
     (case run e texts vname use_ssml sched (initial K texts) of
        None \<Rightarrow> None
      | Some s \<Rightarrow>
          Some (calls s,
                case gather s of
                  Pending \<Rightarrow> Pending
                | Raised x \<Rightarrow> Raised x
                | Returned results \<Rightarrow> Returned (map snd (sort_key fst results))))"
  by (simp add: batch_synthesize_concurrent_def Semaphore_def)

text \<open>
  Claim C1.  Let the limit be at least \<open>1\<close> and let \<open>synthesize_text\<close> succeed
  for every text of the list.  Then, whatever the order of the steps:
  what the caller has got is either nothing yet or a list as long as the input
  whose element at each position is the audio data of the text at that position;
  an execution has at most two steps per text; as long as the caller has got
  nothing, a further step is enabled; and the execution can be continued to one
  that returns.  So every execution ends, and ends returning that list.
\<close>

theorem batch_concurrent_ordered:
  assumes K: "1 \<le> K"
    and succ: "\<forall>i<length texts. \<exists>a. synthesize_text e (texts ! i) vname use_ssml = Inr a"
    and res: "batch_synthesize_concurrent e texts vname use_ssml K sched = Some (cs, out)"
  shows "(out = Pending \<or>
          (\<exists>r. out = Returned r \<and> length r = length texts
             \<and> (\<forall>i<length texts. synthesize_text e (texts ! i) vname use_ssml = Inr (r ! i))))
       \<and> length sched \<le> 2 * length texts
       \<and> (out = Pending \<longrightarrow>
            (\<exists>ev. batch_synthesize_concurrent e texts vname use_ssml K (sched @ [ev]) \<noteq> None))
       \<and> (\<exists>sched' cs' r.
            batch_synthesize_concurrent e texts vname use_ssml K (sched @ sched') = Some (cs', Returned r))"
proof -
  from K have K0: "0 \<le> K" by simp
  let ?init = "initial K texts"
  from res obtain s where s: "run e texts vname use_ssml sched ?init = Some s"
    and out: "out = (case gather s of Pending \<Rightarrow> Pending | Raised x \<Rightarrow> Raised x
                     | Returned results \<Rightarrow> Returned (map snd (sort_key fst results)))"
    unfolding concurrent_unfold [OF K0] by (auto split: option.splits)
  have inv: "length (tasks t) = length texts
             \<and> (\<forall>i<length texts. task_ok e vname use_ssml i (texts ! i) (tasks t ! i))
             \<and> raised t = None"
    if "run e texts vname use_ssml xs ?init = Some t" for xs t
    using run_task_ok [OF that initial_ok] run_no_raise [OF that succ]
    by (simp add: initial_def)
  have sem: "0 < sem_value s + int (outstanding s)"
    using run_semaphore [OF s] K by (simp add: initial_def outstanding_def)
  note i = inv [OF s]
  have shape: "(\<exists>rs. gather s = Returned rs) \<or> gather s = Pending"
    using i by (auto simp add: gather_def split: option.splits)
  have part1: "out = Pending \<or>
          (\<exists>r. out = Returned r \<and> length r = length texts
             \<and> (\<forall>i<length texts. synthesize_text e (texts ! i) vname use_ssml = Inr (r ! i)))"
  proof (cases "gather s = Pending")
    case True
    with out show ?thesis by simp
  next
    case False
    with shape obtain rs where rs: "gather s = Returned rs" by blast
    from returned_results [of s texts e vname use_ssml rs] i rs
    have "sort_key fst rs = rs" "length rs = length texts"
      "\<forall>i<length texts. synthesize_text e (texts ! i) vname use_ssml = Inr (map snd rs ! i)"
      by blast+
    moreover have "out = Returned (map snd rs)" using out rs \<open>sort_key fst rs = rs\<close> by simp
    ultimately show ?thesis by simp
  qed
  have part2: "length sched \<le> 2 * length texts"
    using run_remaining [OF s] remaining_initial [of K texts] by simp
  have part3: "\<exists>ev. batch_synthesize_concurrent e texts vname use_ssml K (sched @ [ev]) \<noteq> None"
    if "out = Pending"
  proof -
    have "gather s = Pending" using that out shape by auto
    then have "remaining s \<noteq> 0"
      using finished_returns [of s texts e vname use_ssml] i succ by auto
    then have "0 < remaining s" by simp
    from progress [OF this _ sem, of texts e vname use_ssml] i
    obtain ev s' where "exec e texts vname use_ssml ev s = Some s'" by blast
    with s have "run e texts vname use_ssml (sched @ [ev]) ?init = Some s'"
      by (simp add: run_append)
    then have "batch_synthesize_concurrent e texts vname use_ssml K (sched @ [ev]) \<noteq> None"
      unfolding concurrent_unfold [OF K0] by simp
    then show ?thesis by blast
  qed
  have part4: "\<exists>sched' cs' r.
            batch_synthesize_concurrent e texts vname use_ssml K (sched @ sched') = Some (cs', Returned r)"
  proof -
    from completion [of s texts e vname use_ssml] i sem
    obtain sched' s' where s': "run e texts vname use_ssml sched' s = Some s'" "remaining s' = 0"
      by blast
    with s have full: "run e texts vname use_ssml (sched @ sched') ?init = Some s'"
      by (simp add: run_append)
    from inv [OF full] have l: "length (tasks s') = length texts"
      and o: "\<forall>i<length texts. task_ok e vname use_ssml i (texts ! i) (tasks s' ! i)"
      and n: "raised s' = None"
      by blast+
    from finished_returns [OF l o succ n s'(2)]
    obtain rs where "gather s' = Returned rs" by blast
    with full have "batch_synthesize_concurrent e texts vname use_ssml K (sched @ sched')
                    = Some (calls s', Returned (map snd (sort_key fst rs)))"
      unfolding concurrent_unfold [OF K0] by simp
    then show ?thesis by blast
  qed
  from part1 part2 part3 part4 show ?thesis by blast
qed

theorem batch_concurrent_ordered_witness:
  "batch_synthesize_concurrent demo_env [''a'', ''b'', ''c''] ''en-US-AriaNeural'' False 2
      [Acquire 0, Acquire 1, Complete 1, Acquire 2, Complete 2, Complete 0]
     = Some ([''a'', ''b'', ''c''], Returned [[1], [2], [1, 2, 3]])
   \<and> synthesize_text demo_env ''a'' ''en-US-AriaNeural'' False = Inr [1]
   \<and> synthesize_text demo_env ''b'' ''en-US-AriaNeural'' False = Inr [2]
   \<and> synthesize_text demo_env ''c'' ''en-US-AriaNeural'' False = Inr [1, 2, 3]
   \<and> length [Acquire 0, Acquire 1, Complete 1, Acquire 2, Complete 2, Complete 0] \<le> 2 * length [''a'', ''b'', ''c'']"
proof -
  have a: "synthesize_text demo_env ''a'' ''en-US-AriaNeural'' False = Inr [1]"
    and b: "synthesize_text demo_env ''b'' ''en-US-AriaNeural'' False = Inr [2]"
    and c: "synthesize_text demo_env ''c'' ''en-US-AriaNeural'' False = Inr [1, 2, 3]"
    by (simp_all add: synthesize_text_def demo_env_def collect_audio_def)
  have succ: "\<forall>i<length [''a'', ''b'', ''c''].
      \<exists>x. synthesize_text demo_env ([''a'', ''b'', ''c''] ! i) ''en-US-AriaNeural'' False = Inr x"
    using a b c by (auto simp add: less_Suc_eq nth_Cons')
  have r: "batch_synthesize_concurrent demo_env [''a'', ''b'', ''c''] ''en-US-AriaNeural'' False 2
      [Acquire 0, Acquire 1, Complete 1, Acquire 2, Complete 2, Complete 0]
     = Some ([''a'', ''b'', ''c''], Returned [[1], [2], [1, 2, 3]])"
    by (simp add: batch_synthesize_concurrent_def Semaphore_def initial_def a b c gather_def)
  from batch_concurrent_ordered [OF _ succ r] a b c r show ?thesis by simp
qed

section \<open>Batch synthesis: the first failure\<close>

lemma batch_loop_fails:
  "j < length texts \<Longrightarrow>
   synthesize_text e (texts ! j) vname use_ssml = Inl x \<Longrightarrow>
   \<forall>i<j. \<exists>a. synthesize_text e (texts ! i) vname use_ssml = Inr a \<Longrightarrow>
   batch_loop e vname use_ssml k texts results cs
     = (cs @ take (Suc j) texts, Inl (batch_item_error (k + j) x))"
proof (induction texts arbitrary: j k results cs)
  case Nil
  then show ?case by simp
next
  case (Cons t texts)
  show ?case
  proof (cases j)
    case 0
    with Cons.prems show ?thesis by simp
  next
    case (Suc j')
    from Cons.prems(3) Suc obtain a where a: "synthesize_text e t vname use_ssml = Inr a"
      by fastforce
    have "\<forall>i<j'. \<exists>a. synthesize_text e (texts ! i) vname use_ssml = Inr a"
    proof (intro allI impI)
      fix i assume "i < j'"
      then have "Suc i < j" using Suc by simp
      with Cons.prems(3) show "\<exists>a. synthesize_text e (texts ! i) vname use_ssml = Inr a"
        by fastforce
    qed
    with Cons.IH [of j' "k + 1" "results @ [a]" "cs @ [t]"] Cons.prems(1,2) Suc a
    show ?thesis by simp
  qed
qed

lemma exec_failed_raised:
  assumes "exec e texts vname use_ssml ev s = Some s'"
    and "\<forall>x. Failed x \<in> set (tasks s) \<longrightarrow> raised s \<noteq> None"
  shows "\<forall>x. Failed x \<in> set (tasks s') \<longrightarrow> raised s' \<noteq> None"
proof (cases ev)
  case (Acquire j)
  with assms(1) have "tasks s' = (tasks s)[j := Running]" "raised s' = raised s"
    by (auto split: if_splits)
  with assms(2) set_update_subset_insert [of "tasks s" j Running] show ?thesis by auto
next
  case (Complete j)
  show ?thesis
  proof (cases "synthesize_text e (texts ! j) vname use_ssml")
    case (Inl y)
    with Complete assms(1) have "raised s' \<noteq> None"
      by (auto simp add: Let_def split: if_splits option.splits)
    then show ?thesis by simp
  next
    case (Inr a)
    with Complete assms(1) have "tasks s' = (tasks s)[j := Done (j, a)]" "raised s' = raised s"
      by (auto split: if_splits)
    with assms(2) set_update_subset_insert [of "tasks s" j "Done (j, a)"] show ?thesis by auto
  qed
qed

lemma run_failed_raised:
  "run e texts vname use_ssml sched s = Some s' \<Longrightarrow>
   \<forall>x. Failed x \<in> set (tasks s) \<longrightarrow> raised s \<noteq> None \<Longrightarrow>
   \<forall>x. Failed x \<in> set (tasks s') \<longrightarrow> raised s' \<noteq> None"
proof (induction sched arbitrary: s)
  case Nil
  then show ?case by simp
next
  case (Cons ev sched)
  from Cons.prems(1) obtain s1 where s1: "exec e texts vname use_ssml ev s = Some s1"
    "run e texts vname use_ssml sched s1 = Some s'"
    by (auto split: option.splits)
  from Cons.IH [OF s1(2) exec_failed_raised [OF s1(1) Cons.prems(2)]] show ?case .
qed

lemma run_first_raised:
  "run e texts vname use_ssml sched s = Some s' \<Longrightarrow>
   first_raised e texts vname use_ssml sched = Some err \<Longrightarrow>
   \<exists>i y. i < length texts \<and> Complete i \<in> set sched
      \<and> synthesize_text e (texts ! i) vname use_ssml = Inl y \<and> err = concurrent_item_error i y"
proof (induction sched arbitrary: s)
  case Nil
  then show ?case by simp
next
  case (Cons ev sched)
  from Cons.prems(1) obtain s1 where s1: "exec e texts vname use_ssml ev s = Some s1"
    "run e texts vname use_ssml sched s1 = Some s'"
    by (auto split: option.splits)
  show ?case
  proof (cases ev)
    case (Acquire j)
    with Cons.prems(2) have "first_raised e texts vname use_ssml sched = Some err" by simp
    from Cons.IH [OF s1(2) this] show ?thesis by auto
  next
    case (Complete j)
    with s1(1) have j: "j < length texts" by (auto split: if_splits)
    show ?thesis
    proof (cases "synthesize_text e (texts ! j) vname use_ssml")
      case (Inl y)
      with Complete Cons.prems(2) have "err = concurrent_item_error j y" by simp
      with Inl j Complete show ?thesis by auto
    next
      case (Inr a)
      with Complete Cons.prems(2) have "first_raised e texts vname use_ssml sched = Some err" by simp
      from Cons.IH [OF s1(2) this] show ?thesis by auto
    qed
  qed
qed

text \<open>
  Claim C2, as the code has it.  Let \<open>synthesize_text\<close> fail for the text at
  index \<open>j\<close> and succeed for every earlier index.  Then
  \<open>batch_synthesize_text\<close> calls \<open>synthesize_text\<close> for the texts up to index \<open>j\<close>
  and raises one \<open>TTSError\<close> that names item \<open>j + 1\<close> and carries the message of
  the failure.  \<open>batch_synthesize_concurrent\<close>, with a limit of at least \<open>1\<close>,
  never returns a list of results; what its caller gets is the error of the
  first task to finish with a failure in the order of completion, which names
  item \<open>j + 1\<close> when no other text fails; and every execution can be continued
  to one that raises.
\<close>

theorem batch_first_failure:
  assumes j: "j < length texts"
    and fail: "synthesize_text e (texts ! j) vname use_ssml = Inl x"
    and before: "\<forall>i<j. \<exists>a. synthesize_text e (texts ! i) vname use_ssml = Inr a"
    and K: "1 \<le> K"
    and res: "batch_synthesize_concurrent e texts vname use_ssml K sched = Some (cs, out)"
  shows "batch_synthesize_text e texts vname use_ssml
           = (take (Suc j) texts, Inl (batch_item_error j x))
     \<and> (\<forall>r. out \<noteq> Returned r)
     \<and> out = (case first_raised e texts vname use_ssml sched of
                None \<Rightarrow> Pending | Some err \<Rightarrow> Raised err)
     \<and> (\<forall>err. out = Raised err \<longrightarrow>
          (\<exists>i y. i < length texts \<and> Complete i \<in> set sched
             \<and> synthesize_text e (texts ! i) vname use_ssml = Inl y
             \<and> err = concurrent_item_error i y))
     \<and> ((\<forall>i<length texts. i \<noteq> j \<longrightarrow> (\<exists>a. synthesize_text e (texts ! i) vname use_ssml = Inr a))
          \<longrightarrow> (\<forall>err. out = Raised err \<longrightarrow> err = concurrent_item_error j x))
     \<and> (\<exists>sched' cs' err.
          batch_synthesize_concurrent e texts vname use_ssml K (sched @ sched') = Some (cs', Raised err))"
proof -
  from K have K0: "0 \<le> K" by simp
  let ?init = "initial K texts"
  have seq: "batch_synthesize_text e texts vname use_ssml
           = (take (Suc j) texts, Inl (batch_item_error j x))"
    using batch_loop_fails [OF j fail before, of 0 "[]" "[]"]
    by (simp add: batch_synthesize_text_def)
  from res obtain s where s: "run e texts vname use_ssml sched ?init = Some s"
    and out: "out = (case gather s of Pending \<Rightarrow> Pending | Raised x \<Rightarrow> Raised x
                     | Returned results \<Rightarrow> Returned (map snd (sort_key fst results)))"
    unfolding concurrent_unfold [OF K0] by (auto split: option.splits)
  have inv: "length (tasks t) = length texts
             \<and> (\<forall>i<length texts. task_ok e vname use_ssml i (texts ! i) (tasks t ! i))
             \<and> (\<forall>x. Failed x \<in> set (tasks t) \<longrightarrow> raised t \<noteq> None)
             \<and> raised t = first_raised e texts vname use_ssml xs"
    if "run e texts vname use_ssml xs ?init = Some t" for xs t
    using run_task_ok [OF that initial_ok] run_failed_raised [OF that] run_raised [OF that]
    by (simp add: initial_def)
  have not_done: "\<forall>rs. gather t \<noteq> Returned rs"
    if t: "run e texts vname use_ssml xs ?init = Some t" for xs t
  proof (intro allI notI)
    fix rs assume "gather t = Returned rs"
    then have "tasks t = map Done rs"
      by (auto simp add: gather_def those_task_result split: option.splits)
    moreover from inv [OF t] have "length (tasks t) = length texts"
      "task_ok e vname use_ssml j (texts ! j) (tasks t ! j)" using j by blast+
    ultimately show False using j fail by simp
  qed
  have gather_eq: "gather t = (case first_raised e texts vname use_ssml xs of
                None \<Rightarrow> Pending | Some err \<Rightarrow> Raised err)"
    if t: "run e texts vname use_ssml xs ?init = Some t" for xs t
    using not_done [OF t] inv [OF t] by (auto simp add: gather_def split: option.splits)
  have p2: "\<forall>r. out \<noteq> Returned r"
    using out not_done [OF s] by (auto split: outcome.splits)
  have p3: "out = (case first_raised e texts vname use_ssml sched of
                None \<Rightarrow> Pending | Some err \<Rightarrow> Raised err)"
    using out gather_eq [OF s] by (simp split: option.splits)
  have p4: "\<exists>i y. i < length texts \<and> Complete i \<in> set sched
             \<and> synthesize_text e (texts ! i) vname use_ssml = Inl y
             \<and> err = concurrent_item_error i y" if "out = Raised err" for err
  proof -
    from that p3 have "first_raised e texts vname use_ssml sched = Some err"
      by (simp split: option.splits)
    from run_first_raised [OF s this] show ?thesis .
  qed
  have p5: "err = concurrent_item_error j x"
    if only: "\<forall>i<length texts. i \<noteq> j \<longrightarrow> (\<exists>a. synthesize_text e (texts ! i) vname use_ssml = Inr a)"
      and r: "out = Raised err" for err
  proof -
    from p4 [OF r] obtain i y where i: "i < length texts"
      "synthesize_text e (texts ! i) vname use_ssml = Inl y" "err = concurrent_item_error i y"
      by blast
    from only i(1,2) have "i = j" by fastforce
    with i fail show ?thesis by simp
  qed
  have p6: "\<exists>sched' cs' err.
          batch_synthesize_concurrent e texts vname use_ssml K (sched @ sched') = Some (cs', Raised err)"
  proof -
    have sem: "0 < sem_value s + int (outstanding s)"
      using run_semaphore [OF s] K by (simp add: initial_def outstanding_def)
    from inv [OF s] have "length (tasks s) = length texts" by blast
    from completion [OF this sem, of e vname use_ssml]
    obtain sched' s' where s': "run e texts vname use_ssml sched' s = Some s'" "remaining s' = 0"
      by blast
    with s have full: "run e texts vname use_ssml (sched @ sched') ?init = Some s'"
      by (simp add: run_append)
    note i' = inv [OF full]
    from i' j have tj: "tasks s' ! j \<in> set (tasks s')"
      "task_ok e vname use_ssml j (texts ! j) (tasks s' ! j)" by auto
    from remaining_zero [OF s'(2) tj(1)] tj(2) fail
    obtain z where "tasks s' ! j = Failed z" by (cases "tasks s' ! j") auto
    with tj(1) i' have "raised s' \<noteq> None" by metis
    then obtain err where "gather s' = Raised err" by (auto simp add: gather_def)
    with full have "batch_synthesize_concurrent e texts vname use_ssml K (sched @ sched')
                    = Some (calls s', Raised err)"
      unfolding concurrent_unfold [OF K0] by simp
    then show ?thesis by blast
  qed
  from seq p2 p3 p4 p5 p6 show ?thesis by blast
qed

lemma demo_x: "synthesize_text demo_env ''x'' ''en-US-AriaNeural'' False
    = Inl (TTSError ''Failed to synthesize text: timed out'')"
  by (simp add: synthesize_text_def demo_env_def)

lemma demo_y: "synthesize_text demo_env ''y'' ''en-US-AriaNeural'' False
    = Inl (TTSError ''Failed to synthesize text: connection reset'')"
  by (simp add: synthesize_text_def demo_env_def)

lemma demo_a: "synthesize_text demo_env ''a'' ''en-US-AriaNeural'' False = Inr [1]"
  by (simp add: synthesize_text_def demo_env_def collect_audio_def)

text \<open>
  With two texts that both fail and a limit of \<open>2\<close>, the task of the second text
  may finish first: the error then names item \<open>2\<close>, although index \<open>0\<close> fails and
  no earlier index does.
\<close>

theorem concurrent_first_index_counterexample:
  "synthesize_text demo_env ([''x'', ''y''] ! 0) ''en-US-AriaNeural'' False
     = Inl (TTSError ''Failed to synthesize text: timed out'')
   \<and> batch_synthesize_concurrent demo_env [''x'', ''y''] ''en-US-AriaNeural'' False 2
        [Acquire 0, Acquire 1, Complete 1, Complete 0]
     = Some ([''x'', ''y''],
         Raised (TTSError ''Failed to synthesize concurrent item 2: Failed to synthesize text: connection reset''))
   \<and> concurrent_item_error 0 (TTSError ''Failed to synthesize text: timed out'')
     = TTSError ''Failed to synthesize concurrent item 1: Failed to synthesize text: timed out''"
  by code_simp

theorem batch_first_failure_witness:
  "batch_synthesize_text demo_env [''a'', ''x'', ''y''] ''en-US-AriaNeural'' False
     = ([''a'', ''x''],
        Inl (TTSError ''Failed to synthesize batch item 2: Failed to synthesize text: timed out''))
   \<and> batch_synthesize_concurrent demo_env [''a'', ''x'', ''y''] ''en-US-AriaNeural'' False 2
        [Acquire 0, Acquire 1, Complete 1]
     = Some ([''a'', ''x''],
         Raised (TTSError ''Failed to synthesize concurrent item 2: Failed to synthesize text: timed out''))
   \<and> first_raised demo_env [''a'', ''x'', ''y''] ''en-US-AriaNeural'' False
        [Acquire 0, Acquire 1, Complete 1]
     = Some (TTSError ''Failed to synthesize concurrent item 2: Failed to synthesize text: timed out'')"
proof -
  have j: "1 < length [''a'', ''x'', ''y'']" by simp
  have fail: "synthesize_text demo_env ([''a'', ''x'', ''y''] ! 1) ''en-US-AriaNeural'' False
     = Inl (TTSError ''Failed to synthesize text: timed out'')"
    by (simp add: demo_x)
  have before: "\<forall>i<1. \<exists>a. synthesize_text demo_env ([''a'', ''x'', ''y''] ! i) ''en-US-AriaNeural'' False = Inr a"
    by (simp add: demo_a)
  have res: "batch_synthesize_concurrent demo_env [''a'', ''x'', ''y''] ''en-US-AriaNeural'' False 2
        [Acquire 0, Acquire 1, Complete 1]
     = Some ([''a'', ''x''],
         Raised (TTSError ''Failed to synthesize concurrent item 2: Failed to synthesize text: timed out''))"
    by code_simp
  have e: "batch_item_error 1 (TTSError ''Failed to synthesize text: timed out'')
     = TTSError ''Failed to synthesize batch item 2: Failed to synthesize text: timed out''"
    by code_simp
  from batch_first_failure [OF j fail before _ res] e res show ?thesis
    by (simp split: option.splits)
qed

section \<open>The validator\<close>

text \<open>Every check appends to the list it is given and drops nothing from it.\<close>

lemma validate_prosody_append:
  "validate_prosody el errs = errs @ validate_prosody el []"
  unfolding validate_prosody_def Let_def
  by (cases "map_of (attrib el) ''rate''"; cases "map_of (attrib el) ''pitch''";
      cases "map_of (attrib el) ''volume''") simp_all

lemma validate_emphasis_append:
  "validate_emphasis el errs = errs @ validate_emphasis el []"
  unfolding validate_emphasis_def
  by (cases "map_of (attrib el) ''level''") simp_all

lemma validate_break_append:
  "validate_break el errs = errs @ validate_break el []"
  unfolding validate_break_def Let_def
  by (cases "map_of (attrib el) ''time''"; cases "map_of (attrib el) ''strength''") simp_all

lemma validate_say_as_append:
  "validate_say_as el errs = errs @ validate_say_as el []"
  unfolding validate_say_as_def by simp

lemma validate_tag_append:
  "validate_tag el errs = errs @ validate_tag el []"
  unfolding validate_tag_def
  using validate_prosody_append [of el errs] validate_emphasis_append [of el errs]
    validate_break_append [of el errs] validate_say_as_append [of el errs]
  by simp

lemma validate_children_append_aux:
  "(\<And>c e. c \<in> set cs \<Longrightarrow> validate_element c e = e @ validate_element c []) \<Longrightarrow>
   validate_children cs errs = errs @ validate_children cs []"
proof (induction cs arbitrary: errs)
  case Nil
  then show ?case by simp
next
  case (Cons c cs)
  have c: "validate_element c e = e @ validate_element c []" for e
    by (rule Cons.prems) simp
  have ih: "validate_children cs e = e @ validate_children cs []" for e
    by (rule Cons.IH) (rule Cons.prems, simp)
  have "validate_children (c # cs) errs = validate_children cs (validate_element c errs)"
    by simp
  also have "\<dots> = (errs @ validate_element c []) @ validate_children cs []"
    using ih [of "validate_element c errs"] c [of errs] by simp
  also have "\<dots> = errs @ validate_children cs (validate_element c [])"
    using ih [of "validate_element c []"] by simp
  finally show ?case by simp
qed

lemma validate_element_append:
  "validate_element el errs = errs @ validate_element el []"
proof (induction el arbitrary: errs)
  case (Element t a cs)
  have kids: "validate_children cs e = e @ validate_children cs []" for e
    by (rule validate_children_append_aux) (rule Element.IH)
  have "validate_element (Element t a cs) errs
        = validate_tag (Element t a cs) errs @ validate_children cs []"
    using kids [of "validate_tag (Element t a cs) errs"] by simp
  also have "\<dots> = errs @ validate_tag (Element t a cs) [] @ validate_children cs []"
    using validate_tag_append [of "Element t a cs" errs] by simp
  also have "\<dots> = errs @ validate_element (Element t a cs) []"
    using kids [of "validate_tag (Element t a cs) []"] by simp
  finally show ?case .
qed

text \<open>
  On a fragment written without a namespace, the element's tag is the bare name
  and the attribute checks apply.
\<close>

lemma validate_bare_fragments:
  \<open>validate et_fromstring ''<prosody rate="blurple">x</prosody>''
     = Inr [''Root element must be <speak>'', ''Missing version attribute in <speak> element'',
            ''Missing xmlns attribute in <speak> element'', ''Invalid prosody rate: blurple'']\<close>
  \<open>validate et_fromstring ''<break time="5"/>''
     = Inr [''Root element must be <speak>'', ''Missing version attribute in <speak> element'',
            ''Missing xmlns attribute in <speak> element'', ''Invalid break time format: 5'']\<close>
  by code_simp+

text \<open>
  Claim C3.  The claim: a document built with \<open>add_prosody\<close> (rate \<open>slow\<close>,
  \<open>fast\<close> or \<open>x-slow\<close>), \<open>add_emphasis\<close> (level \<open>strong\<close>, \<open>moderate\<close> or
  \<open>reduced\<close>) and \<open>add_break\<close> (time ending in \<open>s\<close>) validates without a
  diagnostic.  On the code: \<open>build\<close> declares the default namespace on the
  root, so the parser reports the root's tag as \<open>{namespace}speak\<close> and does not
  list \<open>xmlns\<close> among its attributes; \<open>validate\<close> compares the tag with
  \<open>speak\<close> and looks \<open>xmlns\<close> up in \<open>attrib\<close>, and returns two diagnostics
  for such a document.
\<close>

theorem validate_rejects_built_document:
  \<open>build (apply_ops [AddProsody ''Hello'' (Some ''slow'') None None,
                      AddEmphasis ''world'' ''strong'', AddBreak ''1s'']
            (SSMLBuilder_init ''en-US-AriaNeural'' None))
     = ''<speak version="1.0" xmlns="http://www.w3.org/2001/10/synthesis" xml:lang="en-US">''
       @ [CHR 0x0A] @ ''    <voice name="en-US-AriaNeural">''
       @ [CHR 0x0A] @ ''        <prosody rate="slow">Hello</prosody><emphasis level="strong">world</emphasis><break time="1s"/>''
       @ [CHR 0x0A] @ ''    </voice>''
       @ [CHR 0x0A] @ ''</speak>''
   \<and> et_fromstring (build (apply_ops [AddProsody ''Hello'' (Some ''slow'') None None,
                      AddEmphasis ''world'' ''strong'', AddBreak ''1s'']
            (SSMLBuilder_init ''en-US-AriaNeural'' None)))
     = Parsed (Element ''{http://www.w3.org/2001/10/synthesis}speak''
         [(''version'', ''1.0''), (''{http://www.w3.org/XML/1998/namespace}lang'', ''en-US'')]
         [Element ''{http://www.w3.org/2001/10/synthesis}voice'' [(''name'', ''en-US-AriaNeural'')]
            [Element ''{http://www.w3.org/2001/10/synthesis}prosody'' [(''rate'', ''slow'')] [],
             Element ''{http://www.w3.org/2001/10/synthesis}emphasis'' [(''level'', ''strong'')] [],
             Element ''{http://www.w3.org/2001/10/synthesis}break'' [(''time'', ''1s'')] []]])
   \<and> validate et_fromstring (build (apply_ops [AddProsody ''Hello'' (Some ''slow'') None None,
                      AddEmphasis ''world'' ''strong'', AddBreak ''1s'']
            (SSMLBuilder_init ''en-US-AriaNeural'' None)))
     = Inr [''Root element must be <speak>'', ''Missing xmlns attribute in <speak> element'']\<close>
  by code_simp

text \<open>
  Claim C5.  The claim: every attribute value outside its domain yields one
  diagnostic naming the value, for every serialized input.  On the code: in a
  document that declares the default namespace, as \<open>build\<close> produces it, the
  tags are \<open>{namespace}prosody\<close> and \<open>{namespace}break\<close>, which
  \<open>_validate_element\<close> does not recognise: the rate \<open>blurple\<close> and the time
  \<open>5\<close> yield no diagnostic, and the two diagnostics returned are those of the
  root element.
\<close>

theorem validate_misses_namespaced_values:
  \<open>validate et_fromstring
       (build (add_prosody ''hi'' (Some ''blurple'') None None (SSMLBuilder_init ''en-US-AriaNeural'' None)))
     = Inr [''Root element must be <speak>'', ''Missing xmlns attribute in <speak> element'']
   \<and> validate et_fromstring
       (build (add_break ''5'' (SSMLBuilder_init ''en-US-AriaNeural'' None)))
     = Inr [''Root element must be <speak>'', ''Missing xmlns attribute in <speak> element'']\<close>
  by code_simp

section \<open>The validator and the namespace declaration\<close>

text \<open>
  The parser never lists \<open>xmlns\<close> among the attributes of an element, so the
  check for it in \<open>validate\<close> fails on every document that parses: with this
  parser the validator accepts no input at all, and \<open>synthesize_ssml\<close>, which
  validates first, raises for every input.
\<close>

lemma qualify_plain_not_xmlns:
  assumes "qualify [] k = Some k'" and "k \<noteq> ''xmlns''"
  shows "k' \<noteq> ''xmlns''"
proof (cases "split k CHR '':''")
  case Nil
  with assms(1) show ?thesis by (simp add: qualify_def)
next
  case (Cons l rest)
  show ?thesis
  proof (cases rest)
    case Nil
    with Cons have "join [CHR '':''] (split k CHR '':'') = l" by simp
    then have "l = k" by (simp add: join_split)
    moreover from assms(1) Cons Nil have "k' = l" by (simp add: qualify_def)
    ultimately show ?thesis using assms(2) by simp
  next
    case (Cons m rest')
    note outer = \<open>split k CHR '':'' = l # rest\<close>
    show ?thesis
    proof (cases rest')
      case Nil
      with outer Cons assms(1) have "k' = CHR ''{'' # xml_namespace @ CHR ''}'' # m"
        by (auto simp add: qualify_def split: if_splits)
      then show ?thesis by simp
    next
      case (Cons a b)
      with outer \<open>rest = m # rest'\<close> assms(1) show ?thesis by (simp add: qualify_def)
    qed
  qed
qed

lemma qualify_attrs_no_xmlns:
  "qualify_attrs as = Some as' \<Longrightarrow> map_of as' ''xmlns'' = None"
proof (induction as arbitrary: as')
  case Nil
  then show ?case by simp
next
  case (Cons kv as)
  obtain k v where kv: "kv = (k, v)" by (cases kv)
  show ?case
  proof (cases "k = ''xmlns''")
    case True
    with Cons.prems kv have "qualify_attrs as = Some as'" by simp
    then show ?thesis by (rule Cons.IH)
  next
    case False
    with Cons.prems kv obtain k' rest where k': "qualify [] k = Some k'"
      and rest: "qualify_attrs as = Some rest" and as': "as' = (k', v) # rest"
      by (auto split: option.splits)
    from qualify_plain_not_xmlns [OF k' False] Cons.IH [OF rest] as'
    show ?thesis by simp
  qed
qed

lemma open_element_no_xmlns:
  "open_element ns n as = Some (Frame n' t as' ns' kids) \<Longrightarrow> map_of as' ''xmlns'' = None"
  by (auto simp add: open_element_def Let_def qualify_attrs_no_xmlns
      split: if_splits option.splits)

lemma build_tree_no_xmlns:
  "build_tree ts stack root = Some r \<Longrightarrow>
   \<forall>f \<in> set stack. (case f of Frame n t as ns kids \<Rightarrow> map_of as ''xmlns'' = None) \<Longrightarrow>
   \<forall>r0. root = Some r0 \<longrightarrow> map_of (attrib r0) ''xmlns'' = None \<Longrightarrow>
   map_of (attrib r) ''xmlns'' = None"
proof (induction ts stack root rule: build_tree.induct)
  case (1 stack root)
  then show ?case by (simp split: if_splits)
next
  case (2 ts stack root)
  then show ?case by (simp split: if_splits)
next
  case (3 n as ts stack root)
  show ?case
  proof (cases stack)
    case Nil
    with "3.prems"(1) obtain f where f: "open_element [] n as = Some f" "root = None"
      "build_tree ts [f] root = Some r"
      by (auto split: if_splits option.splits)
    obtain n' t as' ns' kids where fr: "f = Frame n' t as' ns' kids" by (cases f)
    from open_element_no_xmlns f(1) fr have "map_of as' ''xmlns'' = None" by blast
    with fr have ok: "\<forall>g \<in> set [f]. (case g of Frame n t as ns kids \<Rightarrow> map_of as ''xmlns'' = None)"
      by simp
    from "3.IH"(1) [OF Nil _ f(1) f(3) ok "3.prems"(3)] f(2) show ?thesis by simp
  next
    case (Cons p rest)
    obtain pn pt pa ns kids where p: "p = Frame pn pt pa ns kids" by (cases p)
    with "3.prems"(1) Cons obtain f where f: "open_element ns n as = Some f"
      "build_tree ts (f # stack) root = Some r"
      by (auto split: option.splits)
    obtain n' t as' ns' kids' where fr: "f = Frame n' t as' ns' kids'" by (cases f)
    from open_element_no_xmlns f(1) fr have "map_of as' ''xmlns'' = None" by blast
    with fr "3.prems"(2)
    have ok: "\<forall>g \<in> set (f # stack). (case g of Frame n t as ns kids \<Rightarrow> map_of as ''xmlns'' = None)"
      by simp
    from "3.IH"(2) [OF Cons p f(1) f(2) ok "3.prems"(3)] show ?thesis .
  qed
next
  case (4 n ts stack root)
  show ?case
  proof (cases stack)
    case Nil
    with "4.prems"(1) show ?thesis by simp
  next
    case (Cons p rest)
    obtain n' t as ns kids where p: "p = Frame n' t as ns kids" by (cases p)
    from "4.prems"(1) Cons p have same: "n = n'" by (auto split: if_splits)
    from "4.prems"(2) Cons p have pa: "map_of as ''xmlns'' = None" by simp
    show ?thesis
    proof (cases rest)
      case Nil
      with "4.prems"(1) Cons p same
      have run: "build_tree ts [] (Some (Element t as (rev kids))) = Some r" by simp
      have ok: "\<forall>g \<in> set []. (case g of Frame n t as ns kids \<Rightarrow> map_of as ''xmlns'' = None)"
        by simp
      have root': "\<forall>r0. Some (Element t as (rev kids)) = Some r0 \<longrightarrow> map_of (attrib r0) ''xmlns'' = None"
        using pa by simp
      from "4.IH"(1) [OF Cons p _ Nil run ok root'] same show ?thesis by simp
    next
      case (Cons q rest')
      obtain pn pt pa' pns pkids where q: "q = Frame pn pt pa' pns pkids" by (cases q)
      note outer = \<open>stack = p # rest\<close>
      from "4.prems"(1) outer p same Cons q
      have run: "build_tree ts (Frame pn pt pa' pns (Element t as (rev kids) # pkids) # rest') root = Some r"
        by simp
      from "4.prems"(2) outer Cons q
      have ok: "\<forall>g \<in> set (Frame pn pt pa' pns (Element t as (rev kids) # pkids) # rest').
                  (case g of Frame n t as ns kids \<Rightarrow> map_of as ''xmlns'' = None)"
        by simp
      from "4.IH"(2) [OF outer p _ Cons q run ok "4.prems"(3)] same show ?thesis by simp
    qed
  qed
qed

lemma et_fromstring_no_xmlns:
  "et_fromstring s = Parsed root \<Longrightarrow> map_of (attrib root) ''xmlns'' = None"
proof -
  assume p: "et_fromstring s = Parsed root"
  then obtain ts where "build_tree ts [] None = Some root"
    by (auto simp add: et_fromstring_def split: option.splits)
  from build_tree_no_xmlns [OF this] show ?thesis by simp
qed

lemma validate_never_accepts: "validate et_fromstring s \<noteq> Inr []"
proof (cases "et_fromstring s")
  case (Parsed root)
  let ?errs = "(if tag root \<noteq> ''speak'' then [''Root element must be <speak>''] else [])
      @ (if map_of (attrib root) ''version'' = None
         then [''Missing version attribute in <speak> element''] else [])
      @ [''Missing xmlns attribute in <speak> element'']"
  have "validate et_fromstring s = Inr (validate_element root ?errs)"
    using Parsed et_fromstring_no_xmlns [OF Parsed] by (simp add: validate_def Let_def)
  also have "validate_element root ?errs = ?errs @ validate_element root []"
    by (rule validate_element_append)
  finally show ?thesis by simp
next
  case (ParseError m)
  then show ?thesis by (simp add: validate_def)
next
  case (ParseOther x)
  then show ?thesis by (simp add: validate_def)
qed

lemma synthesize_ssml_always_fails:
  assumes "parser e = et_fromstring"
  shows "\<exists>m. synthesize_ssml e s vname = Inl (TTSError m)"
proof -
  have "\<exists>m. client_validate_ssml e s = Inl (TTSError m)"
  proof (cases "validate et_fromstring s")
    case (Inl x)
    with assms show ?thesis by (simp add: client_validate_ssml_def validate_ssml_def)
  next
    case (Inr errors)
    with validate_never_accepts [of s] have "errors \<noteq> []" by auto
    with Inr assms show ?thesis by (simp add: client_validate_ssml_def validate_ssml_def)
  qed
  then show ?thesis by (auto simp add: synthesize_ssml_def synthesize_text_def)
qed

end
